theory Spec2Isabelle
  imports Complex_Main "HOL-Library.Word"
begin

unbundle bit_operations_syntax

section \<open>Machine types and errors\<close>

type_synonym u8 = "8 word"
type_synonym u16 = "16 word"
type_synonym u32 = "32 word"
type_synonym PAddr = u32

text \<open>
  A failed \<open>ASSERT\<close>/\<open>ASSERT_MSG\<close> logs and crashes the emulator, and \<open>std::array::at\<close>
  throws on an index out of range: both end the call, so both are error values.
  \<open>DivisionByZero\<close> is the undefined \<open>value % 0\<close> inside \<open>Common::AlignUp\<close>.
\<close>

datatype error = AssertionFailed | OutOfRange | DivisionByZero

section \<open>Page tracker (rasterizer_accelerated.cpp)\<close>

text \<open>
  Modelled from the spec: \<open>Memory::CITRA_PAGE_BITS\<close> and \<open>Memory::CITRA_PAGE_SIZE\<close> of
  core/memory.h, which is not among the sources; the spec gives a page size of 4096 bytes
  with the matching shift.
\<close>

definition CITRA_PAGE_BITS :: nat where
  "CITRA_PAGE_BITS = 12"

definition CITRA_PAGE_SIZE :: u32 where
  "CITRA_PAGE_SIZE = 0x1000"

text \<open>
  One call \<open>g_memory->RasterizerMarkRegionCached(addr, size, cached)\<close>. The tracker state is
  the counter table \<open>cached_pages\<close> (its length is the size of the \<open>std::array\<close>, declared in
  a header that is not among the sources) and the calls made to the memory subsystem so
  far, oldest first.
\<close>

type_synonym mark_call = "PAddr \<times> u32 \<times> bool"

record tracker =
  cached_pages :: "u16 list"
  mark_calls :: "mark_call list"

definition RasterizerMarkRegionCached :: "PAddr \<Rightarrow> u32 \<Rightarrow> bool \<Rightarrow> tracker \<Rightarrow> tracker" where
  "RasterizerMarkRegionCached a n c t = t\<lparr>mark_calls := mark_calls t @ [(a, n, c)]\<rparr>"

text \<open>The four run-length accumulators of \<open>UpdatePagesCachedCount\<close>.\<close>

record accum =
  uncache_start_addr :: u32
  cache_start_addr :: u32
  uncache_bytes :: u32
  cache_bytes :: u32

text \<open>The body of the \<open>for\<close> loop for one page whose counter is in range.\<close>

definition update_page :: "int \<Rightarrow> u32 \<Rightarrow> accum \<Rightarrow> tracker \<Rightarrow> error + (accum \<times> tracker)" where
  "update_page delta page ac t =
     (let count = cached_pages t ! unat page in
      if (if delta > 0 then \<not> count < 0xFFFF else if delta < 0 then \<not> count > 0 else True)
      then Inl AssertionFailed
      else
        let count' = (word_of_int (uint count + delta) :: u16);
            t1 = t\<lparr>cached_pages := (cached_pages t)[unat page := count']\<rparr>;
            (ac2, t2) =
              (if count' = 0 then
                 (ac\<lparr>uncache_start_addr :=
                        (if uncache_bytes ac = 0 then push_bit CITRA_PAGE_BITS page
                         else uncache_start_addr ac),
                      uncache_bytes := uncache_bytes ac + CITRA_PAGE_SIZE\<rparr>, t1)
               else if uncache_bytes ac > 0 then
                 (ac\<lparr>uncache_bytes := 0\<rparr>,
                  RasterizerMarkRegionCached (uncache_start_addr ac) (uncache_bytes ac) False t1)
               else (ac, t1));
            (ac3, t3) =
              (if count' = 1 \<and> delta > 0 then
                 (ac2\<lparr>cache_start_addr :=
                        (if cache_bytes ac2 = 0 then push_bit CITRA_PAGE_BITS page
                         else cache_start_addr ac2),
                       cache_bytes := cache_bytes ac2 + CITRA_PAGE_SIZE\<rparr>, t2)
               else if cache_bytes ac2 > 0 then
                 (ac2\<lparr>cache_bytes := 0\<rparr>,
                  RasterizerMarkRegionCached (cache_start_addr ac2) (cache_bytes ac2) True t2)
               else (ac2, t2))
        in Inr (ac3, t3))"

text \<open>
  The loop \<open>for (u32 page = page_start; page != page_end; page++)\<close>. The counter is a
  32-bit word that is compared with \<open>!=\<close>, so the distance to \<open>page_end\<close>, taken modulo
  \<open>2^32\<close>, is what decreases.
\<close>

function update_loop :: "int \<Rightarrow> u32 \<Rightarrow> u32 \<Rightarrow> accum \<Rightarrow> tracker \<Rightarrow> error + (accum \<times> tracker)" where
  "update_loop delta page_end page ac t =
     (if page = page_end then Inr (ac, t)
      else if length (cached_pages t) \<le> unat page then Inl OutOfRange
      else case update_page delta page ac t of
             Inl e \<Rightarrow> Inl e
           | Inr (ac', t') \<Rightarrow> update_loop delta page_end (page + 1) ac' t')"
  by pat_completeness auto
termination
proof (relation "measure (\<lambda>(delta, page_end, page, ac, t). unat (page_end - page))")
  show "wf (measure (\<lambda>(delta, page_end, page, ac, t). unat (page_end - page)))"
    by simp
next
  fix delta :: int and page_end page :: u32 and ac :: accum and t :: tracker
    and x2 :: "accum \<times> tracker" and x y
  assume ne: "page \<noteq> page_end"
  have nz: "page_end - page \<noteq> 0"
    using ne by simp
  have eq: "page_end - (page + 1) = (page_end - page) - 1"
    by simp
  have "unat ((page_end - page) - 1) < unat (page_end - page)"
    using nz by (simp add: unat_minus_one unat_gt_0)
  then have lt: "unat (page_end - (page + 1)) < unat (page_end - page)"
    by (simp only: eq)
  show "((delta, page_end, page + 1, x, y), (delta, page_end, page, ac, t))
        \<in> measure (\<lambda>(delta, page_end, page, ac, t). unat (page_end - page))"
    using lt by simp
qed

definition UpdatePagesCachedCount :: "PAddr \<Rightarrow> u32 \<Rightarrow> int \<Rightarrow> tracker \<Rightarrow> error + tracker" where
  "UpdatePagesCachedCount addr sz delta t =
     (let page_start = drop_bit CITRA_PAGE_BITS addr;
          page_end = drop_bit CITRA_PAGE_BITS (addr + sz - 1) + 1;
          ac0 = \<lparr>uncache_start_addr = 0, cache_start_addr = 0, uncache_bytes = 0, cache_bytes = 0\<rparr>
      in case update_loop delta page_end page_start ac0 t of
           Inl e \<Rightarrow> Inl e
         | Inr (ac, t1) \<Rightarrow>
             let t2 = (if uncache_bytes ac > 0
                       then RasterizerMarkRegionCached (uncache_start_addr ac) (uncache_bytes ac) False t1
                       else t1);
                 t3 = (if cache_bytes ac > 0
                       then RasterizerMarkRegionCached (cache_start_addr ac) (cache_bytes ac) True t2
                       else t2)
             in Inr t3)"


text \<open>
  \<open>ClearAll\<close> walks the whole table with \<open>for (u32 page = 0; page != cached_pages.size(); page++)\<close>
  and reads \<open>cached_pages.at(page)\<close>, which is always in range there; the loop never writes the
  table, so it is a traversal of the counters in order, with the page number carried along.
\<close>

fun clear_loop :: "u16 list \<Rightarrow> u32 \<Rightarrow> u32 \<times> u32 \<Rightarrow> tracker \<Rightarrow> (u32 \<times> u32) \<times> tracker" where
  "clear_loop [] page (start, bytes) t = ((start, bytes), t)"
| "clear_loop (count # rest) page (start, bytes) t =
     (if count \<noteq> 0 then
        clear_loop rest (page + 1)
          ((if bytes = 0 then push_bit CITRA_PAGE_BITS page else start), bytes + CITRA_PAGE_SIZE) t
      else if bytes > 0 then
        clear_loop rest (page + 1) (start, 0) (RasterizerMarkRegionCached start bytes False t)
      else clear_loop rest (page + 1) (start, bytes) t)"

text \<open>The part of \<open>ClearAll\<close> after the optional flush: the loop, the final conditional, \<open>cached_pages = {}\<close>.\<close>

definition clear_pages :: "tracker \<Rightarrow> tracker" where
  "clear_pages t =
     (case clear_loop (cached_pages t) 0 (0, 0) t of
        ((start, bytes), t1) \<Rightarrow>
          let t2 = (if bytes > 0 then RasterizerMarkRegionCached start bytes False t1 else t1)
          in t2\<lparr>cached_pages := replicate (length (cached_pages t)) 0\<rparr>)"

section \<open>Vertex array analysis (rasterizer_accelerated.cpp)\<close>

text \<open>
  Modelled from the spec: \<open>Common::AlignUp\<close> of common/alignment.h, which is not among the
  sources. It rounds a value up to the next multiple of the alignment, in the unsigned type of
  the value; it divides by the alignment, so a zero alignment is an error.
\<close>

definition align_up :: "u32 \<Rightarrow> u32 \<Rightarrow> u32" where
  "align_up v a = (let m = v mod a; v' = v - m in if m = 0 then v' else v' + a)"

definition AlignUp :: "u32 \<Rightarrow> u32 \<Rightarrow> error + u32" where
  "AlignUp v a = (if a = 0 then Inl DivisionByZero else Inr (align_up v a))"

text \<open>
  The registers \<open>AnalyzeVertexArray\<close> reads from \<open>Pica::g_state.regs.pipeline\<close>. For an indexed
  draw \<open>index_at i\<close> is the value the loop reads at position \<open>i\<close> of the index array in guest
  memory (\<open>index_address_16[i]\<close> or \<open>index_address_8[i]\<close>, by the index format).
\<close>

record AttributeLoader =
  byte_count :: u32
  component_count :: u32

record PipelineRegs =
  vertex_offset :: u32
  num_vertices :: u32
  attribute_loaders :: "AttributeLoader list"
  index_at :: "nat \<Rightarrow> u32"

record VertexArrayInfo =
  info_vertex_min :: u32
  info_vertex_max :: u32
  info_vs_input_size :: u32

fun index_minmax :: "(nat \<Rightarrow> u32) \<Rightarrow> nat list \<Rightarrow> u32 \<times> u32 \<Rightarrow> u32 \<times> u32" where
  "index_minmax rd [] mm = mm"
| "index_minmax rd (index # rest) (vertex_min, vertex_max) =
     (let vertex = rd index
      in index_minmax rd rest (min vertex_min vertex, max vertex_max vertex))"

fun input_size_loop :: "u32 \<Rightarrow> u32 \<Rightarrow> AttributeLoader list \<Rightarrow> u32 \<Rightarrow> error + u32" where
  "input_size_loop stride_alignment vertex_num [] vs_input_size = Inr vs_input_size"
| "input_size_loop stride_alignment vertex_num (loader # rest) vs_input_size =
     (if component_count loader \<noteq> 0 then
        (case AlignUp (byte_count loader) stride_alignment of
           Inl e \<Rightarrow> Inl e
         | Inr aligned_stride \<Rightarrow>
             (case AlignUp (aligned_stride * vertex_num) 4 of
                Inl e \<Rightarrow> Inl e
              | Inr n \<Rightarrow> input_size_loop stride_alignment vertex_num rest (vs_input_size + n)))
      else input_size_loop stride_alignment vertex_num rest vs_input_size)"

definition AnalyzeVertexArray :: "PipelineRegs \<Rightarrow> bool \<Rightarrow> u32 \<Rightarrow> error + VertexArrayInfo" where
  "AnalyzeVertexArray regs is_indexed stride_alignment =
     (let (vertex_min, vertex_max) =
            (if is_indexed
             then index_minmax (index_at regs) [0 ..< unat (num_vertices regs)] (0xFFFF, 0)
             else (vertex_offset regs, vertex_offset regs + num_vertices regs - 1));
          vertex_num = vertex_max - vertex_min + 1
      in case input_size_loop stride_alignment vertex_num (attribute_loaders regs) 0 of
           Inl e \<Rightarrow> Inl e
         | Inr n \<Rightarrow>
             Inr \<lparr>info_vertex_min = vertex_min, info_vertex_max = vertex_max,
                  info_vs_input_size = n\<rparr>)"

section \<open>Register mirror (rasterizer_accelerated.cpp)\<close>

text \<open>
  The uniform block holds 32-bit floats. Every float these handlers produce is an integer
  register field divided by a constant, so a float is modelled by the rational number it
  stands for; NaN and the infinities are outside the model.
\<close>

type_synonym f32 = rat
type_synonym Vec2f = "f32 \<times> f32"
type_synonym Vec3f = "f32 \<times> f32 \<times> f32"
type_synonym Vec4f = "f32 \<times> f32 \<times> f32 \<times> f32"

definition u32_to_f32 :: "u32 \<Rightarrow> f32" where
  "u32_to_f32 n = of_nat (unat n)"

definition ColorRGBA8 :: "u32 \<Rightarrow> Vec4f" where
  "ColorRGBA8 color =
     (u32_to_f32 (drop_bit 0 color AND 0xFF) / 255, u32_to_f32 (drop_bit 8 color AND 0xFF) / 255,
      u32_to_f32 (drop_bit 16 color AND 0xFF) / 255, u32_to_f32 (drop_bit 24 color AND 0xFF) / 255)"


text \<open>The fields of \<open>uniform_block_data\<close> that the modelled handlers touch.\<close>

record UniformData =
  fog_color :: Vec3f
  const_color :: "Vec4f list"
  tev_combiner_buffer_color :: Vec4f
  alphatest_ref :: u32

record UniformBlockData =
  data :: UniformData
  dirty :: bool


definition SyncAlphaTest :: "u32 \<Rightarrow> UniformBlockData \<Rightarrow> UniformBlockData" where
  "SyncAlphaTest ref ub =
     (if ref \<noteq> alphatest_ref (data ub)
      then ub\<lparr>data := (data ub)\<lparr>alphatest_ref := ref\<rparr>, dirty := True\<rparr>
      else ub)"

definition SyncCombinerColor :: "u32 \<Rightarrow> UniformBlockData \<Rightarrow> UniformBlockData" where
  "SyncCombinerColor raw ub =
     (let combiner_color = ColorRGBA8 raw in
      if combiner_color \<noteq> tev_combiner_buffer_color (data ub)
      then ub\<lparr>data := (data ub)\<lparr>tev_combiner_buffer_color := combiner_color\<rparr>, dirty := True\<rparr>
      else ub)"



section \<open>Vertex batching (rasterizer_accelerated.cpp)\<close>

text \<open>
  \<open>Pica::float24\<close> keeps its value as a 32-bit float and \<open>ToFloat32\<close> returns it, so a vertex
  attribute is the number itself. The dot product is taken in exact arithmetic.
\<close>

record OutputVertex =
  pos :: Vec4f
  quat :: Vec4f
  color :: Vec4f
  tc0 :: Vec2f
  tc1 :: Vec2f
  tc0_w :: f32
  view :: Vec3f
  tc2 :: Vec2f









section \<open>Interval containers\<close>

text \<open>
  Modelled from the spec: the interval containers of \<open>boost::icl\<close>, which are not among the
  sources. A \<open>SurfaceInterval\<close> is the right-open byte range \<open>[lower, upper)\<close>; it is empty
  unless \<open>lower < upper\<close>. An interval map is the list of its segments in address order:
  disjoint non-empty intervals, each with its value, touching segments of equal value joined
  into one. An interval set is the same without values.
\<close>

type_synonym SurfaceInterval = "PAddr \<times> PAddr"
type_synonym 'v imap = "(SurfaceInterval \<times> 'v) list"
type_synonym SurfaceRegions = "SurfaceInterval list"

definition iv_empty :: "SurfaceInterval \<Rightarrow> bool" where
  "iv_empty i = (\<not> fst i < snd i)"

definition iv_length :: "SurfaceInterval \<Rightarrow> u32" where
  "iv_length i = (if fst i < snd i then snd i - fst i else 0)"

definition iv_inter :: "SurfaceInterval \<Rightarrow> SurfaceInterval \<Rightarrow> SurfaceInterval" where
  "iv_inter i j = (max (fst i) (fst j), min (snd i) (snd j))"

definition iv_overlaps :: "SurfaceInterval \<Rightarrow> SurfaceInterval \<Rightarrow> bool" where
  "iv_overlaps i j = (\<not> iv_empty (iv_inter i j))"

definition iv_contains :: "SurfaceInterval \<Rightarrow> SurfaceInterval \<Rightarrow> bool" where
  "iv_contains i j = (fst i \<le> fst j \<and> snd j \<le> snd i)"

text \<open>\<open>RangeFromInterval\<close>: the segments that overlap the interval, in order.\<close>

definition RangeFromInterval :: "'v imap \<Rightarrow> SurfaceInterval \<Rightarrow> 'v imap" where
  "RangeFromInterval m i = filter (\<lambda>p. iv_overlaps (fst p) i) m"

text \<open>What is left of one segment when an interval is cut out of it.\<close>

definition seg_minus :: "SurfaceInterval \<Rightarrow> 'v \<Rightarrow> SurfaceInterval \<Rightarrow> 'v imap" where
  "seg_minus s v i =
     (if fst s < min (snd s) (fst i) then [((fst s, min (snd s) (fst i)), v)] else []) @
     (if max (fst s) (snd i) < snd s then [((max (fst s) (snd i), snd s), v)] else [])"

definition imap_erase :: "SurfaceInterval \<Rightarrow> 'v imap \<Rightarrow> 'v imap" where
  "imap_erase i m = (if iv_empty i then m else concat (map (\<lambda>p. seg_minus (fst p) (snd p) i) m))"

fun imap_join :: "'v imap \<Rightarrow> 'v imap" where
  "imap_join (p # q # rest) =
     (if snd (fst p) = fst (fst q) \<and> snd p = snd q
      then imap_join (((fst (fst p), snd (fst q)), snd p) # rest)
      else p # imap_join (q # rest))"
| "imap_join m = m"

definition imap_insert :: "SurfaceInterval \<times> 'v \<Rightarrow> 'v imap \<Rightarrow> 'v imap" where
  "imap_insert p m = insort_key (\<lambda>q. fst (fst q)) p m"

text \<open>\<open>map.set({i, v})\<close>: the value on \<open>i\<close> is overwritten.\<close>

definition imap_set :: "SurfaceInterval \<Rightarrow> 'v \<Rightarrow> 'v imap \<Rightarrow> 'v imap" where
  "imap_set i v m = (if iv_empty i then m else imap_join (imap_insert (i, v) (imap_erase i m)))"

text \<open>Interval sets: \<open>+=\<close> and \<open>insert\<close>, \<open>-=\<close> and \<open>erase\<close>, \<open>&\<close>, \<open>-\<close>, \<open>contains\<close>.\<close>

definition regions_add :: "SurfaceInterval \<Rightarrow> SurfaceRegions \<Rightarrow> SurfaceRegions" where
  "regions_add i r = map fst (imap_set i () (map (\<lambda>j. (j, ())) r))"

definition regions_erase :: "SurfaceInterval \<Rightarrow> SurfaceRegions \<Rightarrow> SurfaceRegions" where
  "regions_erase i r = map fst (imap_erase i (map (\<lambda>j. (j, ())) r))"

definition regions_union :: "SurfaceRegions \<Rightarrow> SurfaceRegions \<Rightarrow> SurfaceRegions" where
  "regions_union r r' = fold regions_add r' r"

definition regions_minus :: "SurfaceRegions \<Rightarrow> SurfaceRegions \<Rightarrow> SurfaceRegions" where
  "regions_minus r r' = fold regions_erase r' r"

definition regions_inter :: "SurfaceRegions \<Rightarrow> SurfaceInterval \<Rightarrow> SurfaceRegions" where
  "regions_inter r i = filter (\<lambda>j. \<not> iv_empty j) (map (\<lambda>j. iv_inter j i) r)"

definition regions_contains :: "SurfaceRegions \<Rightarrow> SurfaceInterval \<Rightarrow> bool" where
  "regions_contains r i = (regions_minus [i] r = [])"

text \<open>\<open>map -= regions\<close>: every interval of the set is erased from the map.\<close>

definition imap_minus :: "'v imap \<Rightarrow> SurfaceRegions \<Rightarrow> 'v imap" where
  "imap_minus m r = fold imap_erase r m"

text \<open>
  A \<open>std::set<Surface>\<close> orders the shared pointers by address. A surface is named by a
  number that stands for that address, and a set of surfaces is a strictly increasing list.
\<close>

type_synonym sid = nat

definition set_insert :: "sid \<Rightarrow> sid list \<Rightarrow> sid list" where
  "set_insert s xs = (if s \<in> set xs then xs else insort s xs)"

text \<open>
  The surface cache aggregates on overlap: \<open>add({i, {s}})\<close> puts \<open>s\<close> into the set of every
  byte of \<open>i\<close>, \<open>subtract({i, {s}})\<close> takes it out, and a byte whose set becomes empty leaves
  the map.
\<close>

definition cache_add :: "SurfaceInterval \<Rightarrow> sid \<Rightarrow> sid list imap \<Rightarrow> sid list imap" where
  "cache_add i s m =
     (if iv_empty i then m
      else imap_join (sort_key (\<lambda>q. fst (fst q))
             (imap_erase i m
              @ map (\<lambda>p. (iv_inter (fst p) i, set_insert s (snd p))) (RangeFromInterval m i)
              @ map (\<lambda>j. (j, [s])) (regions_minus [i] (map fst m)))))"

definition cache_subtract :: "SurfaceInterval \<Rightarrow> sid \<Rightarrow> sid list imap \<Rightarrow> sid list imap" where
  "cache_subtract i s m =
     (if iv_empty i then m
      else imap_join (sort_key (\<lambda>q. fst (fst q))
             (imap_erase i m
              @ filter (\<lambda>p. snd p \<noteq> [])
                  (map (\<lambda>p. (iv_inter (fst p) i, removeAll s (snd p))) (RangeFromInterval m i)))))"

section \<open>Surfaces and the cache state (rasterizer_cache.h)\<close>

datatype PixelFormat =
    RGBA8 | RGB8 | RGB5A1 | RGB565 | RGBA4 | IA8 | RG8 | I8 | A8 | IA4 | I4 | A4 | ETC1 | ETC1A4
  | D16 | D24 | D24S8 | InvalidFormat

datatype SurfaceType = Color | Texture | Depth | DepthStencil | Fill | InvalidType

datatype ScaleMatch = Exact | Upscale | Ignore

datatype MatchFlags = Invalid | ExactFlag | SubRect | Copy | Expand | TexCopy

text \<open>
  Modelled from the spec: the fields of \<open>SurfaceParams\<close> and of the surface object
  (surface_params.h and surface_base.h are not among the sources). \<open>end_addr\<close> is the
  field \<open>end\<close> and \<open>byte_size\<close> the field \<open>size\<close>.
\<close>

record SurfaceParams =
  addr :: PAddr
  end_addr :: PAddr
  byte_size :: u32
  width :: u32
  height :: u32
  stride :: u32
  res_scale :: u16
  is_tiled :: bool
  pixel_format :: PixelFormat
  surface_type :: SurfaceType

record Surface = SurfaceParams +
  invalid_regions :: SurfaceRegions
  registered :: bool
  fill_size :: u32

definition GetInterval :: "'a SurfaceParams_scheme \<Rightarrow> SurfaceInterval" where
  "GetInterval p = (addr p, end_addr p)"

text \<open>
  Modelled from the spec: a region of a surface is valid when none of its bytes is in
  \<open>invalid_regions\<close>, and the surface is fully invalid when its whole interval is.
\<close>

definition IsRegionValid :: "Surface \<Rightarrow> SurfaceInterval \<Rightarrow> bool" where
  "IsRegionValid s i = (regions_inter (invalid_regions s) i = [])"

definition IsSurfaceFullyInvalid :: "Surface \<Rightarrow> bool" where
  "IsSurfaceFullyInvalid s = regions_contains (invalid_regions s) (GetInterval s)"

text \<open>
  The methods of \<open>SurfaceParams\<close> and of the surface that \<open>FindMatch\<close> and
  \<open>DuplicateSurface\<close> call are defined in files that are not among the sources; they are
  parameters of the model. The first argument is the object the method is called on.
\<close>

record surface_api =
  ExactMatch :: "SurfaceParams \<Rightarrow> SurfaceParams \<Rightarrow> bool"
  CanSubRect :: "SurfaceParams \<Rightarrow> SurfaceParams \<Rightarrow> bool"
  CanExpand :: "SurfaceParams \<Rightarrow> SurfaceParams \<Rightarrow> bool"
  CanTexCopy :: "SurfaceParams \<Rightarrow> SurfaceParams \<Rightarrow> bool"
  CanCopy :: "Surface \<Rightarrow> SurfaceParams \<Rightarrow> SurfaceInterval \<Rightarrow> bool"
  GetCopyableInterval :: "Surface \<Rightarrow> SurfaceParams \<Rightarrow> SurfaceInterval"
  FromInterval :: "SurfaceParams \<Rightarrow> SurfaceInterval \<Rightarrow> SurfaceParams"
  CheckFormatsBlittable :: "PixelFormat \<Rightarrow> PixelFormat \<Rightarrow> bool"

text \<open>
  What the cache asks of its collaborators, in the order asked: the backend (\<open>Download\<close>,
  \<open>Finish\<close>, a blit or copy between two images), the surface's watchers, and guest memory,
  which is written only by a queued download when it runs (\<open>WriteBack\<close>) and by the fill
  download (\<open>FillWrite\<close>).
\<close>

datatype event =
    Download sid SurfaceInterval
  | Finish
  | WriteBack sid PAddr PAddr
  | FillWrite sid PAddr PAddr
  | Blit sid sid
  | InvalidateAllWatcher sid

text \<open>
  The state: the surface objects by name, the members of \<open>RasterizerCache\<close>, the page
  tracker of the rasterizer, the trace of events, and \<open>mapped a\<close>, which tells whether
  \<open>GetPhysicalRef(a)\<close> is a valid reference.
\<close>

record cache =
  surfaces :: "sid \<Rightarrow> Surface"
  surface_cache :: "sid list imap"
  dirty_regions :: "sid imap"
  remove_surfaces :: "sid list"
  download_queue :: "(sid \<times> PAddr \<times> PAddr) list"
  pages :: tracker
  events :: "event list"
  mapped :: "PAddr \<Rightarrow> bool"

definition emit :: "event list \<Rightarrow> cache \<Rightarrow> cache" where
  "emit es st = st\<lparr>events := events st @ es\<rparr>"

definition update_surface :: "sid \<Rightarrow> (Surface \<Rightarrow> Surface) \<Rightarrow> cache \<Rightarrow> cache" where
  "update_surface s f st = st\<lparr>surfaces := (surfaces st)(s := f (surfaces st s))\<rparr>"

subsection \<open>FindMatch\<close>

record match_state =
  match_surface :: "sid option"
  match_valid :: bool
  match_scale :: u32
  match_interval :: SurfaceInterval

text \<open>The second argument of each \<open>IsMatch_Helper\<close> call: the match predicate and its interval.\<close>

fun match_fn ::
  "surface_api \<Rightarrow> Surface \<Rightarrow> SurfaceParams \<Rightarrow> SurfaceInterval option \<Rightarrow> MatchFlags
    \<Rightarrow> error + bool \<times> SurfaceInterval" where
  "match_fn api surface params validate_interval ExactFlag =
     Inr (ExactMatch api (SurfaceParams.truncate surface) params, GetInterval surface)"
| "match_fn api surface params validate_interval SubRect =
     Inr (CanSubRect api (SurfaceParams.truncate surface) params, GetInterval surface)"
| "match_fn api surface params validate_interval Copy =
     (case validate_interval of
        None \<Rightarrow> Inl AssertionFailed
      | Some vi \<Rightarrow>
          let copy_interval = GetCopyableInterval api surface (FromInterval api params vi);
              matched = (iv_length (iv_inter copy_interval vi) \<noteq> 0
                         \<and> CanCopy api surface params copy_interval)
          in Inr (matched, copy_interval))"
| "match_fn api surface params validate_interval Expand =
     Inr (CanExpand api (SurfaceParams.truncate surface) params, GetInterval surface)"
| "match_fn api surface params validate_interval TexCopy =
     Inr (CanTexCopy api (SurfaceParams.truncate surface) params, GetInterval surface)"
| "match_fn api surface params validate_interval Invalid = Inr (False, (0, 0))"

text \<open>The tail of \<open>IsMatch_Helper\<close>: the candidate replaces the match only if it is better.\<close>

definition UpdateMatch :: "sid \<Rightarrow> Surface \<Rightarrow> bool \<Rightarrow> SurfaceInterval \<Rightarrow> match_state" where
  "UpdateMatch s surface is_valid surface_interval =
     \<lparr>match_surface = Some s, match_valid = is_valid, match_scale = ucast (res_scale surface),
      match_interval = surface_interval\<rparr>"

definition update_if_better ::
  "sid \<Rightarrow> Surface \<Rightarrow> bool \<Rightarrow> SurfaceInterval \<Rightarrow> match_state \<Rightarrow> match_state" where
  "update_if_better s surface is_valid surface_interval ms =
     (if ucast (res_scale surface) > match_scale ms then UpdateMatch s surface is_valid surface_interval
      else if ucast (res_scale surface) < match_scale ms then ms
      else if is_valid \<and> \<not> match_valid ms then UpdateMatch s surface is_valid surface_interval
      else if is_valid \<noteq> match_valid ms then ms
      else if iv_length surface_interval > iv_length (match_interval ms)
           then UpdateMatch s surface is_valid surface_interval
      else ms)"

definition IsMatch_Helper ::
  "surface_api \<Rightarrow> MatchFlags set \<Rightarrow> ScaleMatch \<Rightarrow> SurfaceParams \<Rightarrow> SurfaceInterval option
    \<Rightarrow> sid \<Rightarrow> Surface \<Rightarrow> bool \<Rightarrow> bool \<Rightarrow> MatchFlags \<Rightarrow> match_state \<Rightarrow> error + match_state" where
  "IsMatch_Helper api find_flags match_scale_type params validate_interval s surface
       res_scale_matched is_valid check_type ms =
     (if check_type \<notin> find_flags then Inr ms
      else case match_fn api surface params validate_interval check_type of
             Inl e \<Rightarrow> Inl e
           | Inr (matched, surface_interval) \<Rightarrow>
               if \<not> matched then Inr ms
               else if \<not> res_scale_matched \<and> match_scale_type \<noteq> Ignore
                       \<and> surface_type surface \<noteq> Fill then Inr ms
               else Inr (update_if_better s surface is_valid surface_interval ms))"

fun helpers_loop ::
  "(MatchFlags \<Rightarrow> match_state \<Rightarrow> error + match_state) \<Rightarrow> MatchFlags list \<Rightarrow> match_state
    \<Rightarrow> error + match_state" where
  "helpers_loop h [] ms = Inr ms"
| "helpers_loop h (check_type # rest) ms =
     (case h check_type ms of Inl e \<Rightarrow> Inl e | Inr ms' \<Rightarrow> helpers_loop h rest ms')"

text \<open>The body of the inner \<open>for\<close> loop, for one surface of one segment.\<close>

definition match_surface_body ::
  "surface_api \<Rightarrow> MatchFlags set \<Rightarrow> (sid \<Rightarrow> Surface) \<Rightarrow> SurfaceParams \<Rightarrow> ScaleMatch
    \<Rightarrow> SurfaceInterval option \<Rightarrow> sid \<Rightarrow> match_state \<Rightarrow> error + match_state" where
  "match_surface_body api find_flags heap params match_scale_type validate_interval s ms =
     (let surface = heap s;
          res_scale_matched = (if match_scale_type = Exact
                               then res_scale params = res_scale surface
                               else res_scale params \<le> res_scale surface);
          is_valid = (if Copy \<in> find_flags then True
                      else IsRegionValid surface
                             (case validate_interval of None \<Rightarrow> GetInterval params | Some vi \<Rightarrow> vi))
      in if Invalid \<notin> find_flags \<and> \<not> is_valid then Inr ms
         else helpers_loop
                (IsMatch_Helper api find_flags match_scale_type params validate_interval s surface
                   res_scale_matched is_valid)
                [ExactFlag, SubRect, Copy, Expand, TexCopy] ms)"

fun match_set_loop ::
  "(sid \<Rightarrow> match_state \<Rightarrow> error + match_state) \<Rightarrow> sid list \<Rightarrow> match_state \<Rightarrow> error + match_state" where
  "match_set_loop body [] ms = Inr ms"
| "match_set_loop body (s # rest) ms =
     (case body s ms of Inl e \<Rightarrow> Inl e | Inr ms' \<Rightarrow> match_set_loop body rest ms')"

fun match_pairs_loop ::
  "(sid \<Rightarrow> match_state \<Rightarrow> error + match_state) \<Rightarrow> sid list imap \<Rightarrow> match_state
    \<Rightarrow> error + match_state" where
  "match_pairs_loop body [] ms = Inr ms"
| "match_pairs_loop body (pair # rest) ms =
     (case match_set_loop body (snd pair) ms of
        Inl e \<Rightarrow> Inl e
      | Inr ms' \<Rightarrow> match_pairs_loop body rest ms')"

definition match_init :: match_state where
  "match_init = \<lparr>match_surface = None, match_valid = False, match_scale = 0, match_interval = (0, 0)\<rparr>"

definition FindMatch ::
  "surface_api \<Rightarrow> MatchFlags set \<Rightarrow> (sid \<Rightarrow> Surface) \<Rightarrow> sid list imap \<Rightarrow> SurfaceParams \<Rightarrow> ScaleMatch
    \<Rightarrow> SurfaceInterval option \<Rightarrow> error + sid option" where
  "FindMatch api find_flags heap cache_map params match_scale_type validate_interval =
     (case match_pairs_loop
             (match_surface_body api find_flags heap params match_scale_type validate_interval)
             (RangeFromInterval cache_map (GetInterval params)) match_init of
        Inl e \<Rightarrow> Inl e
      | Inr ms \<Rightarrow> Inr (match_surface ms))"

subsection \<open>FlushRegion\<close>

text \<open>
  \<open>DownloadSurface\<close> asks the backend for the image data and, when guest memory is mapped
  at the start of the interval, queues the closure that will write it to guest memory.
\<close>

definition DownloadSurface :: "sid \<Rightarrow> SurfaceInterval \<Rightarrow> cache \<Rightarrow> error + cache" where
  "DownloadSurface s interval st =
     (let surface = surfaces st s; flush_start = fst interval; flush_end = snd interval in
      if \<not> (flush_start \<ge> addr surface \<and> flush_end \<le> end_addr surface) then Inl AssertionFailed
      else
        let st1 = emit [Download s interval] st in
        if \<not> mapped st flush_start then Inr st1
        else Inr (st1\<lparr>download_queue := download_queue st1 @ [(s, flush_start, flush_end)]\<rparr>))"

definition DownloadFillSurface :: "sid \<Rightarrow> SurfaceInterval \<Rightarrow> cache \<Rightarrow> error + cache" where
  "DownloadFillSurface s interval st =
     (let surface = surfaces st s; flush_start = fst interval; flush_end = snd interval in
      if \<not> (flush_start \<ge> addr surface \<and> flush_end \<le> end_addr surface) then Inl AssertionFailed
      else if \<not> mapped st flush_start then Inr st
      else Inr (emit [FillWrite s flush_start flush_end] st))"

text \<open>The loop of \<open>FlushRegion\<close> over the dirty segments that overlap the flushed interval.\<close>

fun flush_loop ::
  "u32 \<Rightarrow> SurfaceInterval \<Rightarrow> sid option \<Rightarrow> sid imap \<Rightarrow> cache \<times> SurfaceRegions
    \<Rightarrow> error + cache \<times> SurfaceRegions" where
  "flush_loop sz flush_interval flush_surface [] acc = Inr acc"
| "flush_loop sz flush_interval flush_surface (pair # rest) (st, flushed_intervals) =
     (let interval = (if sz \<le> 8 then fst pair else iv_inter (fst pair) flush_interval);
          surface = snd pair
      in if flush_surface \<noteq> None \<and> Some surface \<noteq> flush_surface
         then flush_loop sz flush_interval flush_surface rest (st, flushed_intervals)
         else if \<not> IsRegionValid (surfaces st surface) interval then Inl AssertionFailed
         else case (if surface_type (surfaces st surface) = Fill
                    then DownloadFillSurface surface interval st
                    else DownloadSurface surface interval st) of
                Inl e \<Rightarrow> Inl e
              | Inr st' \<Rightarrow>
                  flush_loop sz flush_interval flush_surface rest
                    (st', regions_add interval flushed_intervals))"

text \<open>Waiting for the GPU and running the queued downloads in order.\<close>

definition run_downloads :: "cache \<Rightarrow> cache" where
  "run_downloads st =
     (if download_queue st \<noteq> []
      then (emit (Finish # map (\<lambda>(s, flush_start, flush_end). WriteBack s flush_start flush_end)
                             (download_queue st)) st)\<lparr>download_queue := []\<rparr>
      else st)"

definition FlushRegion :: "PAddr \<Rightarrow> u32 \<Rightarrow> sid option \<Rightarrow> cache \<Rightarrow> error + cache" where
  "FlushRegion a sz flush_surface st =
     (if sz = 0 then Inr st
      else
        let flush_interval = (a, a + sz) in
        case flush_loop sz flush_interval flush_surface
               (RangeFromInterval (dirty_regions st) flush_interval) (st, []) of
          Inl e \<Rightarrow> Inl e
        | Inr (st1, flushed_intervals) \<Rightarrow>
            let st2 = run_downloads st1
            in Inr (st2\<lparr>dirty_regions := imap_minus (dirty_regions st2) flushed_intervals\<rparr>))"

definition FlushAll :: "cache \<Rightarrow> error + cache" where
  "FlushAll st = FlushRegion 0 0xFFFFFFFF None st"

subsection \<open>Register, Unregister, DuplicateSurface\<close>

definition RegisterSurface :: "sid \<Rightarrow> cache \<Rightarrow> error + cache" where
  "RegisterSurface s st =
     (if registered (surfaces st s) then Inr st
      else
        let st1 = update_surface s (\<lambda>x. x\<lparr>registered := True\<rparr>) st;
            surface = surfaces st1 s;
            st2 = st1\<lparr>surface_cache := cache_add (GetInterval surface) s (surface_cache st1)\<rparr>
        in case UpdatePagesCachedCount (addr surface) (byte_size surface) 1 (pages st2) of
             Inl e \<Rightarrow> Inl e
           | Inr t \<Rightarrow> Inr (st2\<lparr>pages := t\<rparr>))"

definition UnregisterSurface :: "sid \<Rightarrow> cache \<Rightarrow> error + cache" where
  "UnregisterSurface s st =
     (if \<not> registered (surfaces st s) then Inr st
      else
        let st1 = update_surface s (\<lambda>x. x\<lparr>registered := False\<rparr>) st;
            surface = surfaces st1 s
        in case UpdatePagesCachedCount (addr surface) (byte_size surface) (- 1) (pages st1) of
             Inl e \<Rightarrow> Inl e
           | Inr t \<Rightarrow>
               Inr (st1\<lparr>pages := t,
                        surface_cache := cache_subtract (GetInterval surface) s (surface_cache st1)\<rparr>))"

text \<open>
  \<open>BlitSurfaces\<close>, as far as the cache state goes: nothing happens for formats that cannot
  be blitted; otherwise the destination's watchers are invalidated and the backend copies
  or blits.
\<close>

definition BlitSurfaces :: "surface_api \<Rightarrow> sid \<Rightarrow> sid \<Rightarrow> cache \<Rightarrow> cache" where
  "BlitSurfaces api src dst st =
     (if \<not> CheckFormatsBlittable api (pixel_format (surfaces st src)) (pixel_format (surfaces st dst))
      then st
      else emit [InvalidateAllWatcher dst, Blit src dst] st)"

definition DuplicateSurface :: "surface_api \<Rightarrow> sid \<Rightarrow> sid \<Rightarrow> cache \<Rightarrow> error + cache" where
  "DuplicateSurface api src_surface dest_surface st =
     (if \<not> (addr (surfaces st dest_surface) \<le> addr (surfaces st src_surface)
            \<and> end_addr (surfaces st dest_surface) \<ge> end_addr (surfaces st src_surface))
      then Inl AssertionFailed
      else
        let st1 = BlitSurfaces api src_surface dest_surface st;
            st2 = update_surface dest_surface
                    (\<lambda>x. x\<lparr>invalid_regions :=
                             regions_erase (GetInterval (surfaces st1 src_surface)) (invalid_regions x)\<rparr>) st1;
            st3 = update_surface dest_surface
                    (\<lambda>x. x\<lparr>invalid_regions :=
                             regions_union (invalid_regions x) (invalid_regions (surfaces st2 src_surface))\<rparr>) st2;
            regions = fold (\<lambda>pair r. if snd pair = src_surface then regions_add (fst pair) r else r)
                        (RangeFromInterval (dirty_regions st3) (GetInterval (surfaces st3 src_surface))) []
        in Inr (st3\<lparr>dirty_regions :=
                      fold (\<lambda>interval m. imap_set interval dest_surface m) regions (dirty_regions st3)\<rparr>))"

subsection \<open>InvalidateRegion\<close>

text \<open>The body of the first loop, for one surface of one segment of the surface cache.\<close>

definition invalidate_surface ::
  "SurfaceInterval \<Rightarrow> u32 \<Rightarrow> sid option \<Rightarrow> sid \<Rightarrow> cache \<Rightarrow> error + cache" where
  "invalidate_surface invalid_interval sz region_owner cached_surface st =
     (if Some cached_surface = region_owner then Inr st
      else if region_owner = None \<and> sz \<le> 8 then
        (case FlushRegion (addr (surfaces st cached_surface)) (byte_size (surfaces st cached_surface))
                (Some cached_surface) st of
           Inl e \<Rightarrow> Inl e
         | Inr st1 \<Rightarrow>
             Inr (st1\<lparr>remove_surfaces := set_insert cached_surface (remove_surfaces st1)\<rparr>))
      else
        let interval = iv_inter (GetInterval (surfaces st cached_surface)) invalid_interval;
            st1 = update_surface cached_surface
                    (\<lambda>x. x\<lparr>invalid_regions := regions_add interval (invalid_regions x)\<rparr>) st;
            st2 = emit [InvalidateAllWatcher cached_surface] st1
        in if IsSurfaceFullyInvalid (surfaces st2 cached_surface)
           then Inr (st2\<lparr>remove_surfaces := set_insert cached_surface (remove_surfaces st2)\<rparr>)
           else Inr st2)"

fun invalidate_set_loop ::
  "SurfaceInterval \<Rightarrow> u32 \<Rightarrow> sid option \<Rightarrow> sid list \<Rightarrow> cache \<Rightarrow> error + cache" where
  "invalidate_set_loop invalid_interval sz region_owner [] st = Inr st"
| "invalidate_set_loop invalid_interval sz region_owner (cached_surface # rest) st =
     (case invalidate_surface invalid_interval sz region_owner cached_surface st of
        Inl e \<Rightarrow> Inl e
      | Inr st' \<Rightarrow> invalidate_set_loop invalid_interval sz region_owner rest st')"

fun invalidate_pairs_loop ::
  "SurfaceInterval \<Rightarrow> u32 \<Rightarrow> sid option \<Rightarrow> sid list imap \<Rightarrow> cache \<Rightarrow> error + cache" where
  "invalidate_pairs_loop invalid_interval sz region_owner [] st = Inr st"
| "invalidate_pairs_loop invalid_interval sz region_owner (pair # rest) st =
     (case invalidate_set_loop invalid_interval sz region_owner (snd pair) st of
        Inl e \<Rightarrow> Inl e
      | Inr st' \<Rightarrow> invalidate_pairs_loop invalid_interval sz region_owner rest st')"

text \<open>The body of the second loop, for one staged surface.\<close>

definition remove_step :: "surface_api \<Rightarrow> sid option \<Rightarrow> sid \<Rightarrow> cache \<Rightarrow> error + cache" where
  "remove_step api region_owner remove_surface st =
     (if Some remove_surface = region_owner then
        (case FindMatch api {SubRect, Invalid} (surfaces st) (surface_cache st)
                (SurfaceParams.truncate (surfaces st remove_surface)) Ignore None of
           Inl e \<Rightarrow> Inl e
         | Inr None \<Rightarrow> Inl AssertionFailed
         | Inr (Some expanded_surface) \<Rightarrow>
             if regions_minus (invalid_regions (surfaces st remove_surface))
                  (invalid_regions (surfaces st expanded_surface)) = []
             then (case DuplicateSurface api remove_surface expanded_surface st of
                     Inl e \<Rightarrow> Inl e
                   | Inr st1 \<Rightarrow> UnregisterSurface remove_surface st1)
             else Inr st)
      else UnregisterSurface remove_surface st)"

fun remove_loop :: "surface_api \<Rightarrow> sid option \<Rightarrow> sid list \<Rightarrow> cache \<Rightarrow> error + cache" where
  "remove_loop api region_owner [] st = Inr st"
| "remove_loop api region_owner (remove_surface # rest) st =
     (case remove_step api region_owner remove_surface st of
        Inl e \<Rightarrow> Inl e
      | Inr st' \<Rightarrow> remove_loop api region_owner rest st')"

text \<open>
  \<open>InvalidateRegion\<close> up to and including the update of \<open>dirty_regions\<close>: the assertions on
  the owner, the first loop, and the new owner of the interval.
\<close>

definition invalidate_mark :: "PAddr \<Rightarrow> u32 \<Rightarrow> sid option \<Rightarrow> cache \<Rightarrow> error + cache" where
  "invalidate_mark a sz region_owner st =
     (let invalid_interval = (a, a + sz) in
      case (case region_owner of
              None \<Rightarrow> Inr st
            | Some owner \<Rightarrow>
                if surface_type (surfaces st owner) = Texture then Inl AssertionFailed
                else if \<not> (a \<ge> addr (surfaces st owner) \<and> a + sz \<le> end_addr (surfaces st owner))
                  then Inl AssertionFailed
                else if width (surfaces st owner) \<noteq> stride (surfaces st owner) then Inl AssertionFailed
                else Inr (update_surface owner
                            (\<lambda>x. x\<lparr>invalid_regions := regions_erase invalid_interval (invalid_regions x)\<rparr>)
                            st)) of
        Inl e \<Rightarrow> Inl e
      | Inr st1 \<Rightarrow>
          (case invalidate_pairs_loop invalid_interval sz region_owner
                  (RangeFromInterval (surface_cache st1) invalid_interval) st1 of
             Inl e \<Rightarrow> Inl e
           | Inr st2 \<Rightarrow>
               Inr (st2\<lparr>dirty_regions :=
                          (case region_owner of
                             Some owner \<Rightarrow> imap_set invalid_interval owner (dirty_regions st2)
                           | None \<Rightarrow> imap_erase invalid_interval (dirty_regions st2))\<rparr>)))"

definition InvalidateRegion ::
  "surface_api \<Rightarrow> PAddr \<Rightarrow> u32 \<Rightarrow> sid option \<Rightarrow> cache \<Rightarrow> error + cache" where
  "InvalidateRegion api a sz region_owner st =
     (if sz = 0 then Inr st
      else case invalidate_mark a sz region_owner st of
             Inl e \<Rightarrow> Inl e
           | Inr st1 \<Rightarrow>
               (case remove_loop api region_owner (remove_surfaces st1) st1 of
                  Inl e \<Rightarrow> Inl e
                | Inr st2 \<Rightarrow> Inr (st2\<lparr>remove_surfaces := []\<rparr>)))"

subsection \<open>ClearAll (rasterizer_accelerated.cpp)\<close>

text \<open>
  Modelled from the spec: \<open>FlushRegion\<close> of the rasterizer is virtual and its override is not
  among the sources; it forwards to the cache's \<open>FlushRegion\<close>.
\<close>

definition ClearAll :: "bool \<Rightarrow> cache \<Rightarrow> error + cache" where
  "ClearAll flush st =
     (case (if flush then FlushRegion 0 0xFFFFFFFF None st else Inr st) of
        Inl e \<Rightarrow> Inl e
      | Inr st1 \<Rightarrow> Inr (st1\<lparr>pages := clear_pages (pages st1)\<rparr>))"

section \<open>The match order and the candidates of a request, in the words of the spec\<close>






section \<open>A concrete cache\<close>

text \<open>
  Modelled from the spec: the match predicates the spec defines in words. \<open>Exact\<close>: same
  address, width, height, stride, pixel format and tiling. \<open>SubRect\<close>: the requested region
  fits inside the candidate, with the same tiling and format. \<open>Expand\<close>: the candidate shares
  format, tiling and stride with the request and their intervals intersect. The spec does not
  define the predicates of \<open>Copy\<close> and \<open>TexCopy\<close>; they are never true here, and every pair
  of formats can be blitted.
\<close>

definition spec_api :: surface_api where
  "spec_api =
     \<lparr>ExactMatch = (\<lambda>s p. addr s = addr p \<and> width s = width p \<and> height s = height p
                            \<and> stride s = stride p \<and> pixel_format s = pixel_format p
                            \<and> is_tiled s = is_tiled p),
      CanSubRect = (\<lambda>s p. iv_contains (GetInterval s) (GetInterval p)
                            \<and> pixel_format s = pixel_format p \<and> is_tiled s = is_tiled p),
      CanExpand = (\<lambda>s p. pixel_format s = pixel_format p \<and> is_tiled s = is_tiled p
                           \<and> stride s = stride p \<and> iv_overlaps (GetInterval s) (GetInterval p)),
      CanTexCopy = (\<lambda>s p. False),
      CanCopy = (\<lambda>s p i. False),
      GetCopyableInterval = (\<lambda>s p. (0, 0)),
      FromInterval = (\<lambda>p i. p),
      CheckFormatsBlittable = (\<lambda>f g. True)\<rparr>"

text \<open>
  A registered, fully valid, tiled RGBA8 colour surface over \<open>[a, e)\<close>, 8 pixels wide, at
  the given scale.
\<close>

definition color_surface :: "PAddr \<Rightarrow> PAddr \<Rightarrow> u16 \<Rightarrow> Surface" where
  "color_surface a e scale =
     \<lparr>addr = a, end_addr = e, byte_size = e - a, width = 8, height = (e - a) div 32, stride = 8,
      res_scale = scale, is_tiled = True, pixel_format = RGBA8, surface_type = Color,
      invalid_regions = [], registered = True, fill_size = 0\<rparr>"

text \<open>
  Three registered surfaces: surface 1 over \<open>[0x2000, 0x3000)\<close> at scale 1, surface 2 over
  \<open>[0x2000, 0x4000)\<close> at scale 2, which contains surface 1, and surface 3 over
  \<open>[0x1000, 0x2800)\<close> at scale 3, which overlaps surface 1 without containing it. Each has
  drawn into part of its memory. Surface 1 is staged for removal.
\<close>

definition ex_surfaces :: "sid \<Rightarrow> Surface" where
  "ex_surfaces = (\<lambda>s. if s = 1 then color_surface 0x2000 0x3000 1
                       else if s = 2 then color_surface 0x2000 0x4000 2
                       else color_surface 0x1000 0x2800 3)"

definition ex_cache :: cache where
  "ex_cache =
     \<lparr>surfaces = ex_surfaces,
      surface_cache = [((0x1000, 0x2000), [3]), ((0x2000, 0x2800), [1, 2, 3]),
                       ((0x2800, 0x3000), [1, 2]), ((0x3000, 0x4000), [2])],
      dirty_regions = [((0x1000, 0x1800), 3), ((0x2000, 0x2800), 1), ((0x3000, 0x3800), 2)],
      remove_surfaces = [1],
      download_queue = [],
      pages = \<lparr>cached_pages = [0, 1, 3, 1, 0, 0], mark_calls = []\<rparr>,
      events = [],
      mapped = (\<lambda>a. True)\<rparr>"

section \<open>Runs of cached pages\<close>

text \<open>
  Pages are numbered from 0; a run \<open>(s, n)\<close> is the \<open>n\<close> pages from page \<open>s\<close> on. A run is maximal
  in a counter table when it is not empty, every counter in it is nonzero, and it is bounded
  on each side by a zero counter or by the end of the table. \<open>pg_bytes n\<close> is the byte size
  of \<open>n\<close> pages (and the address of page \<open>n\<close>); a call covers page \<open>p\<close> when the address
  of \<open>p\<close> lies in its byte range.
\<close>

definition pg_bytes :: "nat \<Rightarrow> u32" where
  "pg_bytes k = of_nat (4096 * k)"

definition covers :: "nat \<Rightarrow> nat \<times> nat \<Rightarrow> bool" where
  "covers p r = (fst r \<le> p \<and> p < fst r + snd r)"

definition maximal_run :: "u16 list \<Rightarrow> nat \<times> nat \<Rightarrow> bool" where
  "maximal_run full r =
     (0 < snd r \<and> fst r + snd r \<le> length full
      \<and> (\<forall>i. fst r \<le> i \<and> i < fst r + snd r \<longrightarrow> full ! i \<noteq> 0)
      \<and> (0 < fst r \<longrightarrow> full ! (fst r - 1) = 0)
      \<and> (fst r + snd r < length full \<longrightarrow> full ! (fst r + snd r) = 0))"

definition call_covers :: "nat \<Rightarrow> mark_call \<Rightarrow> bool" where
  "call_covers p c = (unat (fst c) \<le> 4096 * p \<and> 4096 * p < unat (fst c) + unat (fst (snd c)))"

text \<open>The runs the loop of \<open>ClearAll\<close> reports, with \<open>k\<close> pages of a run pending before \<open>page\<close>.\<close>

fun runs :: "u16 list \<Rightarrow> nat \<Rightarrow> nat \<Rightarrow> (nat \<times> nat) list" where
  "runs [] page k = (if k > 0 then [(page - k, k)] else [])"
| "runs (c # rest) page k =
     (if c \<noteq> 0 then runs rest (Suc page) (Suc k)
      else (if k > 0 then [(page - k, k)] else []) @ runs rest (Suc page) 0)"

definition call_of :: "nat \<times> nat \<Rightarrow> mark_call" where
  "call_of r = (pg_bytes (fst r), pg_bytes (snd r), False)"

section \<open>Notions of the invalidation claims\<close>


definition flush_evidence :: "cache \<Rightarrow> sid \<Rightarrow> SurfaceInterval \<Rightarrow> event list \<Rightarrow> bool" where
  "flush_evidence st s i evs =
     (if surface_type (surfaces st s) = Fill
      then (mapped st (fst i) \<longrightarrow> FillWrite s (fst i) (snd i) \<in> set evs)
      else Download s i \<in> set evs)"



section \<open>Notions used in the proofs\<close>

text \<open>The bytes of an interval, of the segments of a map and of an interval set.\<close>

definition iv_bytes :: "SurfaceInterval \<Rightarrow> PAddr set" where
  "iv_bytes i = {x. fst i \<le> x \<and> x < snd i}"

definition imap_bytes :: "'v imap \<Rightarrow> PAddr set" where
  "imap_bytes m = (\<Union>p \<in> set m. iv_bytes (fst p))"

definition region_bytes :: "SurfaceRegions \<Rightarrow> PAddr set" where
  "region_bytes r = (\<Union>i \<in> set r. iv_bytes i)"

definition segs_nonempty :: "'v imap \<Rightarrow> bool" where
  "segs_nonempty m = (\<forall>p \<in> set m. \<not> iv_empty (fst p))"

definition regions_nonempty :: "SurfaceRegions \<Rightarrow> bool" where
  "regions_nonempty r = (\<forall>i \<in> set r. \<not> iv_empty i)"

definition flush_interval_of :: "u32 \<Rightarrow> SurfaceInterval \<Rightarrow> SurfaceInterval \<Rightarrow> SurfaceInterval" where
  "flush_interval_of sz flush_interval i = (if sz \<le> 8 then i else iv_inter i flush_interval)"



text \<open>What a flush leaves alone, and how the dirty map and the surface cache shrink.\<close>

definition same_frame :: "cache \<Rightarrow> cache \<Rightarrow> bool" where
  "same_frame st st' =
     (surfaces st' = surfaces st \<and> surface_cache st' = surface_cache st
      \<and> remove_surfaces st' = remove_surfaces st \<and> pages st' = pages st \<and> mapped st' = mapped st)"

definition refines_dirty :: "sid imap \<Rightarrow> sid imap \<Rightarrow> bool" where
  "refines_dirty m' m = (\<forall>q \<in> set m'. \<exists>i. (i, snd q) \<in> set m \<and> iv_bytes (fst q) \<subseteq> iv_bytes i)"

definition in_cache_at :: "sid list imap \<Rightarrow> PAddr \<Rightarrow> sid \<Rightarrow> bool" where
  "in_cache_at m b s = (\<exists>p \<in> set m. b \<in> iv_bytes (fst p) \<and> s \<in> set (snd p))"



section \<open>Properties of the page tracker\<close>

lemma update_loop_unfold:
  "update_loop delta page_end page ac t =
     (if page = page_end then Inr (ac, t)
      else if length (cached_pages t) \<le> unat page then Inl OutOfRange
      else case update_page delta page ac t of
             Inl e \<Rightarrow> Inl e
           | Inr (ac', t') \<Rightarrow> update_loop delta page_end (page + 1) ac' t')"
  by (rule update_loop.simps)

declare update_loop.simps [simp del]

lemmas page_tracker_eval =
  UpdatePagesCachedCount_def update_loop_unfold [of _ _ "numeral n" for n] update_loop_unfold [of _ _ 1]
  update_page_def CITRA_PAGE_BITS_def CITRA_PAGE_SIZE_def RasterizerMarkRegionCached_def Let_def
  drop_bit_eq_div push_bit_eq_mult

text \<open>
  Claim C1. On a counter table that is all zero and has at least the four pages the byte
  range \<open>[0x1000, 0x4000)\<close> touches, \<open>UpdatePagesCachedCount(0x1000, 0x3000, +1)\<close> returns
  normally having made exactly one call, \<open>RasterizerMarkRegionCached(0x1000, 0x3000, true)\<close>,
  with pages 1 to 3 counted once; \<open>UpdatePagesCachedCount(0x1000, 0x3000, -1)\<close> on that state
  returns normally having added exactly one call,
  \<open>RasterizerMarkRegionCached(0x1000, 0x3000, false)\<close>, and leaves every counter zero.
\<close>

theorem C1_page_tracker_zero_one_zero:
  assumes "4 \<le> N"
  shows "UpdatePagesCachedCount 0x1000 0x3000 1 \<lparr>cached_pages = replicate N 0, mark_calls = []\<rparr>
           = Inr \<lparr>cached_pages = (replicate N 0)[1 := 1, 2 := 1, 3 := 1],
                  mark_calls = [(0x1000, 0x3000, True)]\<rparr>
       \<and> UpdatePagesCachedCount 0x1000 0x3000 (- 1)
             \<lparr>cached_pages = (replicate N 0)[1 := 1, 2 := 1, 3 := 1],
              mark_calls = [(0x1000, 0x3000, True)]\<rparr>
           = Inr \<lparr>cached_pages = replicate N 0,
                  mark_calls = [(0x1000, 0x3000, True), (0x1000, 0x3000, False)]\<rparr>"
proof -
  have restored:
    "(replicate N (0::u16))[1 := 1, 2 := 1, 3 := 1, Suc 0 := 0, 2 := 0, 3 := 0] = replicate N 0"
    using assms by (intro nth_equalityI) (simp_all add: nth_list_update)
  show ?thesis
    using assms restored by (simp add: page_tracker_eval)
qed

theorem C1_page_tracker_zero_one_zero_witness:
  "UpdatePagesCachedCount 0x1000 0x3000 1 \<lparr>cached_pages = replicate 0x30000 0, mark_calls = []\<rparr>
           = Inr \<lparr>cached_pages = (replicate 0x30000 0)[1 := 1, 2 := 1, 3 := 1],
                  mark_calls = [(0x1000, 0x3000, True)]\<rparr>
       \<and> UpdatePagesCachedCount 0x1000 0x3000 (- 1)
             \<lparr>cached_pages = (replicate 0x30000 0)[1 := 1, 2 := 1, 3 := 1],
              mark_calls = [(0x1000, 0x3000, True)]\<rparr>
           = Inr \<lparr>cached_pages = replicate 0x30000 0,
                  mark_calls = [(0x1000, 0x3000, True), (0x1000, 0x3000, False)]\<rparr>"
  by (rule C1_page_tracker_zero_one_zero) simp


section \<open>Properties of the vertex array analysis\<close>

lemma input_size_loop_sum:
  "a \<noteq> 0 \<Longrightarrow> input_size_loop a n ls acc =
     Inr (acc + sum_list (map (\<lambda>l. align_up (align_up (byte_count l) a * n) 4)
                              (filter (\<lambda>l. component_count l \<noteq> 0) ls)))"
  by (induction ls arbitrary: acc) (simp_all add: AlignUp_def add.assoc)

lemma nat_align_up:
  fixes v a :: nat
  assumes "0 < a"
  shows "(v + a - 1) div a * a = (if v mod a = 0 then v - v mod a else v - v mod a + a)"
proof (cases "v mod a = 0")
  case True
  then obtain q where q: "v = a * q" by auto
  have "(a * q + a - 1) div a = q"
    using assms by (intro div_nat_eqI) (simp_all add: algebra_simps)
  then show ?thesis using True q by simp
next
  case False
  define q r where "q = v div a" and "r = v mod a"
  have v: "v = a * q + r" and r: "0 < r" "r < a"
    using False assms by (simp_all add: q_def r_def)
  have "(a * q + r + a - 1) div a = Suc q"
    using r by (intro div_nat_eqI) (simp_all add: algebra_simps)
  moreover have "v - v mod a = a * q" using v r_def by simp
  ultimately show ?thesis using False v by (simp add: r_def [symmetric])
qed

text \<open>
  Where nothing wraps, \<open>align_up\<close> is rounding up to a multiple: the quotient rounded up,
  times the alignment.
\<close>

lemma unat_align_up:
  assumes "a \<noteq> 0" "(unat v + unat a - 1) div unat a * unat a < 2 ^ 32"
  shows "unat (align_up v a) = (unat v + unat a - 1) div unat a * unat a"
proof -
  let ?v = "unat v" and ?a = "unat a"
  have apos: "0 < ?a" using assms(1) by (simp add: unat_gt_0)
  have m: "unat (v mod a) = ?v mod ?a" by (simp add: unat_mod)
  have le: "v mod a \<le> v" by (simp add: word_le_nat_alt m)
  have sub: "unat (v - v mod a) = ?v - ?v mod ?a"
    using le by (simp add: unat_sub m)
  have nat_eq: "(?v + ?a - 1) div ?a * ?a = (if ?v mod ?a = 0 then ?v - ?v mod ?a else ?v - ?v mod ?a + ?a)"
    by (rule nat_align_up [OF apos])
  show ?thesis
  proof (cases "v mod a = 0")
    case True
    then have "?v mod ?a = 0" using m by simp
    then show ?thesis using True sub nat_eq by (simp add: align_up_def)
  next
    case False
    then have "unat (v mod a) \<noteq> 0" by (simp add: unat_eq_0)
    then have nz: "?v mod ?a \<noteq> 0" unfolding m .
    then have bound: "?v - ?v mod ?a + ?a < 2 ^ 32" using assms(2) nat_eq by simp
    have "unat (v - v mod a + a) = ?v - ?v mod ?a + ?a"
      using bound sub by (simp add: unat_add_lem [THEN iffD1])
    then show ?thesis using False nz nat_eq by (simp add: align_up_def Let_def)
  qed
qed

text \<open>
  Claim C9. For a non-indexed draw with a nonzero stride alignment, \<open>AnalyzeVertexArray\<close>
  returns \<open>vertex_min = vertex_offset\<close>, \<open>vertex_max = vertex_offset + num_vertices - 1\<close> and,
  as \<open>vs_input_size\<close>, the sum over the attribute loaders with a nonzero component count of
  \<open>align_up (align_up byte_count stride_alignment * (vertex_max - vertex_min + 1)) 4\<close>, all in
  32-bit unsigned arithmetic as in the code.
\<close>

theorem C9_AnalyzeVertexArray_non_indexed:
  assumes "stride_alignment \<noteq> 0"
  shows "AnalyzeVertexArray regs False stride_alignment =
     Inr \<lparr>info_vertex_min = vertex_offset regs,
          info_vertex_max = vertex_offset regs + num_vertices regs - 1,
          info_vs_input_size =
            sum_list (map (\<lambda>loader. align_up (align_up (byte_count loader) stride_alignment
                               * ((vertex_offset regs + num_vertices regs - 1) - vertex_offset regs + 1)) 4)
                        (filter (\<lambda>loader. component_count loader \<noteq> 0) (attribute_loaders regs)))\<rparr>"
  using assms by (simp add: AnalyzeVertexArray_def input_size_loop_sum)

theorem C9_AnalyzeVertexArray_non_indexed_witness:
  "AnalyzeVertexArray
     \<lparr>vertex_offset = 10, num_vertices = 3,
      attribute_loaders = [\<lparr>byte_count = 12, component_count = 3\<rparr>,
                           \<lparr>byte_count = 7, component_count = 0\<rparr>,
                           \<lparr>byte_count = 6, component_count = 2\<rparr>],
      index_at = (\<lambda>i. 0)\<rparr> False 4
   = Inr \<lparr>info_vertex_min = 10, info_vertex_max = 12, info_vs_input_size = 60\<rparr>"
  using C9_AnalyzeVertexArray_non_indexed
    [of 4 "\<lparr>vertex_offset = 10, num_vertices = 3,
      attribute_loaders = [\<lparr>byte_count = 12, component_count = 3\<rparr>,
                           \<lparr>byte_count = 7, component_count = 0\<rparr>,
                           \<lparr>byte_count = 6, component_count = 2\<rparr>],
      index_at = (\<lambda>i. 0)\<rparr>"]
  by (simp add: align_up_def)

section \<open>Properties of the register mirror\<close>




section \<open>Properties of vertex batching\<close>





section \<open>Properties of the interval containers and of FlushRegion\<close>

lemma iv_empty_bytes: "iv_empty i \<longleftrightarrow> iv_bytes i = {}"
  by (cases i) (auto simp: iv_empty_def iv_bytes_def)

lemma iv_bytes_inter: "iv_bytes (iv_inter i j) = iv_bytes i \<inter> iv_bytes j"
  by (cases i, cases j) (auto simp: iv_inter_def iv_bytes_def)

lemma iv_overlaps_bytes: "iv_overlaps i j \<longleftrightarrow> iv_bytes i \<inter> iv_bytes j \<noteq> {}"
  by (simp add: iv_overlaps_def iv_empty_bytes iv_bytes_inter)

lemma seg_minus_sub:
  assumes "(i', v') \<in> set (seg_minus s v j)"
  shows "v' = v \<and> iv_bytes i' \<subseteq> iv_bytes s \<and> iv_bytes i' \<inter> iv_bytes j = {} \<and> \<not> iv_empty i'"
  using assms by (cases s, cases j) (auto simp: seg_minus_def iv_bytes_def iv_empty_def split: if_splits)

lemma seg_minus_bytes:
  "\<not> iv_empty j \<Longrightarrow> imap_bytes (seg_minus s v j) = iv_bytes s - iv_bytes j"
  by (cases s, cases j) (auto simp: seg_minus_def imap_bytes_def iv_bytes_def iv_empty_def)

lemma imap_erase_sub:
  assumes "(i', v) \<in> set (imap_erase j m)"
  obtains i where "(i, v) \<in> set m" "iv_bytes i' \<subseteq> iv_bytes i" "iv_bytes i' \<inter> iv_bytes j = {}"
proof (cases "iv_empty j")
  case True
  then have "(i', v) \<in> set m" "iv_bytes i' \<inter> iv_bytes j = {}"
    using assms by (auto simp: imap_erase_def iv_empty_bytes)
  then show thesis using that [of i'] by simp
next
  case False
  then obtain p where p: "p \<in> set m" "(i', v) \<in> set (seg_minus (fst p) (snd p) j)"
    using assms by (auto simp: imap_erase_def)
  from seg_minus_sub [OF p(2)] have "v = snd p" "iv_bytes i' \<subseteq> iv_bytes (fst p)"
    "iv_bytes i' \<inter> iv_bytes j = {}" by simp_all
  moreover have "(fst p, snd p) \<in> set m" using p(1) by simp
  ultimately show thesis using that [of "fst p"] by simp
qed

lemma imap_minus_sub:
  assumes "(i', v) \<in> set (imap_minus m r)"
  obtains i where "(i, v) \<in> set m" "iv_bytes i' \<subseteq> iv_bytes i" "iv_bytes i' \<inter> region_bytes r = {}"
proof -
  have "\<exists>i. (i, v) \<in> set m \<and> iv_bytes i' \<subseteq> iv_bytes i \<and> iv_bytes i' \<inter> region_bytes r = {}"
    using assms
  proof (induction r arbitrary: m)
    case Nil
    then have "(i', v) \<in> set m" by (simp add: imap_minus_def)
    then show ?case by (intro exI [of _ i']) (simp add: region_bytes_def)
  next
    case (Cons j r)
    from Cons.prems have "(i', v) \<in> set (imap_minus (imap_erase j m) r)"
      by (simp add: imap_minus_def)
    from Cons.IH [OF this] obtain i1 where i1: "(i1, v) \<in> set (imap_erase j m)"
      "iv_bytes i' \<subseteq> iv_bytes i1" "iv_bytes i' \<inter> region_bytes r = {}" by blast
    from imap_erase_sub [OF i1(1)] obtain i where i: "(i, v) \<in> set m" "iv_bytes i1 \<subseteq> iv_bytes i"
      "iv_bytes i1 \<inter> iv_bytes j = {}" by blast
    have "iv_bytes i' \<subseteq> iv_bytes i" using i1(2) i(2) by blast
    moreover have "iv_bytes i' \<inter> region_bytes (j # r) = {}"
      using i1(2,3) i(3) by (auto simp: region_bytes_def)
    ultimately show ?case using i(1) by blast
  qed
  then show thesis using that by blast
qed

lemma segs_nonempty_erase:
  assumes "segs_nonempty m"
  shows "segs_nonempty (imap_erase j m)"
proof (cases "iv_empty j")
  case True
  then show ?thesis using assms by (simp add: imap_erase_def)
next
  case False
  have "\<not> iv_empty (fst q)" if "q \<in> set (imap_erase j m)" for q
  proof -
    from that False obtain p where "(fst q, snd q) \<in> set (seg_minus (fst p) (snd p) j)"
      by (auto simp: imap_erase_def)
    from seg_minus_sub [OF this] show ?thesis by simp
  qed
  then show ?thesis by (simp add: segs_nonempty_def)
qed

lemma imap_bytes_erase: "\<not> iv_empty j \<Longrightarrow> imap_bytes (imap_erase j m) = imap_bytes m - iv_bytes j"
proof -
  assume ne: "\<not> iv_empty j"
  have "imap_bytes (imap_erase j m) = (\<Union>p \<in> set m. imap_bytes (seg_minus (fst p) (snd p) j))"
    using ne by (simp add: imap_erase_def imap_bytes_def)
  also have "\<dots> = (\<Union>p \<in> set m. iv_bytes (fst p) - iv_bytes j)"
    using ne by (simp add: seg_minus_bytes)
  also have "\<dots> = imap_bytes m - iv_bytes j"
    by (auto simp: imap_bytes_def)
  finally show ?thesis .
qed

lemma imap_join_props:
  "segs_nonempty m \<Longrightarrow> segs_nonempty (imap_join m) \<and> imap_bytes (imap_join m) = imap_bytes m"
proof (induction m rule: imap_join.induct)
  case (1 p q rest)
  show ?case
  proof (cases "snd (fst p) = fst (fst q) \<and> snd p = snd q")
    case True
    let ?pq = "((fst (fst p), snd (fst q)), snd p)"
    have ne: "fst (fst p) < snd (fst p)" "fst (fst q) < snd (fst q)"
      using "1.prems" by (auto simp: segs_nonempty_def iv_empty_def)
    have b: "iv_bytes (fst ?pq) = iv_bytes (fst p) \<union> iv_bytes (fst q)"
      using True ne by (auto simp: iv_bytes_def)
    have "segs_nonempty (?pq # rest)"
      using "1.prems" True ne by (auto simp: segs_nonempty_def iv_empty_def)
    from "1.IH"(1) [OF True this] show ?thesis
      using True b by (auto simp: imap_bytes_def)
  next
    case False
    have "segs_nonempty (q # rest)" using "1.prems" by (simp add: segs_nonempty_def)
    from "1.IH"(2) [OF False this] show ?thesis
      using False "1.prems" by (auto simp: imap_bytes_def segs_nonempty_def)
  qed
qed simp_all

lemma imap_set_props:
  assumes "segs_nonempty m"
  shows "segs_nonempty (imap_set i v m) \<and> imap_bytes (imap_set i v m) = imap_bytes m \<union> iv_bytes i"
proof (cases "iv_empty i")
  case True
  then show ?thesis using assms by (auto simp: imap_set_def iv_empty_bytes)
next
  case False
  let ?m1 = "imap_insert (i, v) (imap_erase i m)"
  have ne1: "segs_nonempty ?m1"
    using segs_nonempty_erase [OF assms, of i] False
    by (auto simp: imap_insert_def segs_nonempty_def set_insort_key)
  have b1: "imap_bytes ?m1 = iv_bytes i \<union> (imap_bytes m - iv_bytes i)"
    using imap_bytes_erase [OF False, of m]
    by (auto simp: imap_insert_def imap_bytes_def set_insort_key)
  from imap_join_props [OF ne1] b1 False show ?thesis
    by (auto simp: imap_set_def)
qed

lemma regions_add_props:
  assumes "regions_nonempty r"
  shows "regions_nonempty (regions_add i r) \<and> region_bytes (regions_add i r) = region_bytes r \<union> iv_bytes i"
proof -
  let ?m = "map (\<lambda>j. (j, ())) r"
  have "segs_nonempty ?m" using assms by (auto simp: segs_nonempty_def regions_nonempty_def)
  from imap_set_props [OF this, of i "()"]
  have "segs_nonempty (imap_set i () ?m)" "imap_bytes (imap_set i () ?m) = imap_bytes ?m \<union> iv_bytes i"
    by simp_all
  moreover have "imap_bytes ?m = region_bytes r" by (auto simp: imap_bytes_def region_bytes_def)
  ultimately show ?thesis
    by (auto simp: regions_add_def regions_nonempty_def segs_nonempty_def region_bytes_def imap_bytes_def)
qed

lemma Download_frame:
  assumes "DownloadSurface s i st = Inr st' \<or> DownloadFillSurface s i st = Inr st'"
  shows "dirty_regions st' = dirty_regions st \<and> surfaces st' = surfaces st
       \<and> surface_cache st' = surface_cache st \<and> remove_surfaces st' = remove_surfaces st
       \<and> pages st' = pages st \<and> mapped st' = mapped st"
  using assms
  by (auto simp: DownloadSurface_def DownloadFillSurface_def emit_def Let_def split: if_splits)

lemma flush_loop_props:
  assumes "flush_loop sz fi fs segs (st, fl) = Inr (st1, fl1)" "regions_nonempty fl"
  shows "dirty_regions st1 = dirty_regions st \<and> regions_nonempty fl1
       \<and> region_bytes fl \<subseteq> region_bytes fl1
       \<and> (\<forall>p \<in> set segs. (fs = None \<or> fs = Some (snd p)) \<longrightarrow>
             iv_bytes (flush_interval_of sz fi (fst p)) \<subseteq> region_bytes fl1)"
  using assms
proof (induction segs arbitrary: st fl)
  case Nil
  then show ?case by simp
next
  case (Cons pair rest)
  let ?interval = "flush_interval_of sz fi (fst pair)"
  show ?case
  proof (cases "fs \<noteq> None \<and> Some (snd pair) \<noteq> fs")
    case True
    then have "flush_loop sz fi fs rest (st, fl) = Inr (st1, fl1)"
      using Cons.prems(1) by (simp add: Let_def)
    from Cons.IH [OF this Cons.prems(2)] True show ?thesis by auto
  next
    case False
    from False Cons.prems(1) obtain st' where
      dl: "(if surface_type (surfaces st (snd pair)) = Fill
            then DownloadFillSurface (snd pair) ?interval st
            else DownloadSurface (snd pair) ?interval st) = Inr st'"
      and rec: "flush_loop sz fi fs rest (st', regions_add ?interval fl) = Inr (st1, fl1)"
      by (auto simp: Let_def flush_interval_of_def split: if_splits sum.splits)
    have d: "dirty_regions st' = dirty_regions st"
      using dl Download_frame [of "snd pair" ?interval st st'] by (auto split: if_splits)
    note ra = regions_add_props [OF Cons.prems(2), of ?interval]
    from Cons.IH [OF rec] ra
    have ih: "dirty_regions st1 = dirty_regions st'" "regions_nonempty fl1"
      "region_bytes (regions_add ?interval fl) \<subseteq> region_bytes fl1"
      "\<forall>p \<in> set rest. (fs = None \<or> fs = Some (snd p)) \<longrightarrow>
             iv_bytes (flush_interval_of sz fi (fst p)) \<subseteq> region_bytes fl1"
      by simp_all
    have "iv_bytes ?interval \<subseteq> region_bytes fl1" "region_bytes fl \<subseteq> region_bytes fl1"
      using ih(3) ra by auto
    then show ?thesis using ih d by auto
  qed
qed

lemma flush_loop_skip:
  "\<forall>p \<in> set segs. fs \<noteq> None \<and> Some (snd p) \<noteq> fs \<Longrightarrow> flush_loop sz fi fs segs acc = Inr acc"
proof (induction segs)
  case Nil
  then show ?case by simp
next
  case (Cons p rest)
  obtain st fl where acc: "acc = (st, fl)" by (cases acc)
  from Cons show ?case unfolding acc by (simp add: Let_def)
qed

lemma run_downloads_props:
  "download_queue (run_downloads st) = [] \<and> dirty_regions (run_downloads st) = dirty_regions st"
  by (simp add: run_downloads_def emit_def)

lemma FlushRegion_after:
  assumes "FlushRegion a sz fs st = Inr st'" "sz \<noteq> 0"
  shows "download_queue st' = []"
    and "\<forall>p \<in> set (RangeFromInterval (dirty_regions st') (a, a + sz)). fs \<noteq> None \<and> Some (snd p) \<noteq> fs"
proof -
  let ?fi = "(a, a + sz)"
  let ?segs = "RangeFromInterval (dirty_regions st) ?fi"
  from assms obtain st1 fl where
    lp: "flush_loop sz ?fi fs ?segs (st, []) = Inr (st1, fl)"
    and st': "st' = (run_downloads st1)\<lparr>dirty_regions := imap_minus (dirty_regions (run_downloads st1)) fl\<rparr>"
    by (auto simp: FlushRegion_def Let_def split: sum.splits)
  show "download_queue st' = []" using st' by (simp add: run_downloads_props)
  have e: "regions_nonempty []" by (simp add: regions_nonempty_def)
  from flush_loop_props [OF lp e]
  have d1: "dirty_regions st1 = dirty_regions st"
    and cov: "\<forall>p \<in> set ?segs. (fs = None \<or> fs = Some (snd p)) \<longrightarrow>
                 iv_bytes (flush_interval_of sz ?fi (fst p)) \<subseteq> region_bytes fl"
    by simp_all
  have dd: "dirty_regions st' = imap_minus (dirty_regions st) fl"
    using st' d1 by (simp add: run_downloads_props)
  show "\<forall>p \<in> set (RangeFromInterval (dirty_regions st') ?fi). fs \<noteq> None \<and> Some (snd p) \<noteq> fs"
  proof
    fix p assume "p \<in> set (RangeFromInterval (dirty_regions st') ?fi)"
    then have pin: "(fst p, snd p) \<in> set (imap_minus (dirty_regions st) fl)"
      and ov: "iv_overlaps (fst p) ?fi"
      by (simp_all add: RangeFromInterval_def dd)
    from imap_minus_sub [OF pin] obtain i where i: "(i, snd p) \<in> set (dirty_regions st)"
      "iv_bytes (fst p) \<subseteq> iv_bytes i" "iv_bytes (fst p) \<inter> region_bytes fl = {}" by blast
    from ov obtain b where b: "b \<in> iv_bytes (fst p)" "b \<in> iv_bytes ?fi"
      by (auto simp: iv_overlaps_bytes)
    have "iv_overlaps i ?fi" using b i(2) by (auto simp: iv_overlaps_bytes)
    then have mem: "(i, snd p) \<in> set ?segs" using i(1) by (simp add: RangeFromInterval_def)
    have bi: "b \<in> iv_bytes (flush_interval_of sz ?fi i)"
      using b i(2) by (auto simp: flush_interval_of_def iv_bytes_inter)
    show "fs \<noteq> None \<and> Some (snd p) \<noteq> fs"
    proof (rule ccontr)
      assume "\<not> (fs \<noteq> None \<and> Some (snd p) \<noteq> fs)"
      then have "fs = None \<or> fs = Some (snd p)" by auto
      with cov mem have "iv_bytes (flush_interval_of sz ?fi i) \<subseteq> region_bytes fl" by fastforce
      with bi b(1) i(3) show False by auto
    qed
  qed
qed

text \<open>
  Claim C6. If \<open>FlushRegion\<close> returns on a state, then called again with the same arguments on
  the state it left it returns that very state: \<open>dirty_regions\<close>, the surfaces, the download
  queue and the trace of events are unchanged, so the second call queues no download and makes
  no \<open>Finish\<close> and no write to guest memory.
\<close>

theorem C6_FlushRegion_idempotent:
  assumes "FlushRegion a sz flush_surface st = Inr st'"
  shows "FlushRegion a sz flush_surface st' = Inr st'"
proof (cases "sz = 0")
  case True
  then show ?thesis using assms by (simp add: FlushRegion_def)
next
  case False
  note after = FlushRegion_after [OF assms False]
  have "flush_loop sz (a, a + sz) flush_surface (RangeFromInterval (dirty_regions st') (a, a + sz)) (st', [])
          = Inr (st', [])"
    by (rule flush_loop_skip [OF after(2)])
  then show ?thesis using False after(1)
    by (simp add: FlushRegion_def run_downloads_def imap_minus_def)
qed

theorem C6_FlushRegion_idempotent_witness:
  "\<exists>st'. FlushRegion 0x2100 0x20 None ex_cache = Inr st'
         \<and> events st' = [Download 1 (0x2100, 0x2120), Finish, WriteBack 1 0x2100 0x2120]
         \<and> FlushRegion 0x2100 0x20 None st' = Inr st'"
proof -
  have "(case FlushRegion 0x2100 0x20 None ex_cache of Inl e \<Rightarrow> Inl e | Inr st \<Rightarrow> Inr (events st))
          = Inr [Download 1 (0x2100, 0x2120), Finish, WriteBack 1 0x2100 0x2120]"
    by code_simp
  then obtain st' where s: "FlushRegion 0x2100 0x20 None ex_cache = Inr st'"
    "events st' = [Download 1 (0x2100, 0x2120), Finish, WriteBack 1 0x2100 0x2120]"
    by (auto split: sum.splits)
  from C6_FlushRegion_idempotent [OF s(1)] s show ?thesis by blast
qed

text \<open>
  Claim C10. With size zero, \<open>FlushRegion\<close> and \<open>InvalidateRegion\<close> return the state they
  were given: the surface cache, the dirty regions, every surface (and so its invalid
  regions), the page counters, the staged surfaces, the download queue and the trace of
  downloads, blits and guest-memory writes are all unchanged.
\<close>

theorem C10_zero_size_is_noop:
  "FlushRegion a 0 flush_surface st = Inr st \<and> InvalidateRegion api a 0 region_owner st = Inr st"
  by (simp add: FlushRegion_def InvalidateRegion_def)

section \<open>Properties of FindMatch\<close>













section \<open>Properties of ClearAll\<close>

lemma unat_pg_bytes: "k < 2 ^ 20 \<Longrightarrow> unat (pg_bytes k) = 4096 * k"
  unfolding pg_bytes_def by (subst unat_of_nat) simp

lemma pg_bytes_eq_0: "k < 2 ^ 20 \<Longrightarrow> pg_bytes k = 0 \<longleftrightarrow> k = 0"
  using unat_pg_bytes [of k] by (auto simp: unat_eq_0 [symmetric])

lemma pg_bytes_Suc: "pg_bytes k + CITRA_PAGE_SIZE = pg_bytes (Suc k)"
  by (simp add: pg_bytes_def CITRA_PAGE_SIZE_def)

lemma push_bit_page: "push_bit CITRA_PAGE_BITS (of_nat page :: u32) = pg_bytes page"
  by (simp add: pg_bytes_def CITRA_PAGE_BITS_def push_bit_eq_mult)

lemma clear_loop_runs:
  assumes "page + length xs < 2 ^ 20" "k \<le> page"
    and "k > 0 \<longrightarrow> start = pg_bytes (page - k)"
  shows "(case clear_loop xs (of_nat page) (start, pg_bytes k) t of
            ((s, b), t1) \<Rightarrow> (if b > 0 then RasterizerMarkRegionCached s b False t1 else t1))
         = t\<lparr>mark_calls := mark_calls t @ map call_of (runs xs page k)\<rparr>"
  using assms
proof (induction xs arbitrary: page k start t)
  case Nil
  then have "k < 2 ^ 20" by simp
  then show ?case using Nil
    by (auto simp: RasterizerMarkRegionCached_def call_of_def word_greater_zero_iff pg_bytes_eq_0)
next
  case (Cons c rest)
  have k20: "k < 2 ^ 20" and sk20: "Suc k < 2 ^ 20" using Cons.prems by simp_all
  have pg: "(of_nat page :: u32) + 1 = of_nat (Suc page)" by simp
  have z: "(0::u32) = pg_bytes 0" by (simp add: pg_bytes_def)
  show ?case
  proof (cases "c = 0")
    case True
    show ?thesis
    proof (cases "k = 0")
      case True
      from Cons.IH [of "Suc page" 0 start t] Cons.prems
      have "(case clear_loop rest (of_nat (Suc page)) (start, pg_bytes 0) t of
            ((s, b), t1) \<Rightarrow> (if b > 0 then RasterizerMarkRegionCached s b False t1 else t1))
         = t\<lparr>mark_calls := mark_calls t @ map call_of (runs rest (Suc page) 0)\<rparr>"
        by simp
      with \<open>c = 0\<close> True show ?thesis
        by (simp add: pg z [symmetric] del: of_nat_Suc)
    next
      case False
      then have b: "pg_bytes k > 0"
        using k20 by (simp add: word_greater_zero_iff pg_bytes_eq_0)
      have st: "start = pg_bytes (page - k)" using False Cons.prems by simp
      from Cons.IH [of "Suc page" 0 start "RasterizerMarkRegionCached start (pg_bytes k) False t"] Cons.prems
      have "(case clear_loop rest (of_nat (Suc page)) (start, pg_bytes 0)
                   (RasterizerMarkRegionCached start (pg_bytes k) False t) of
            ((s, b), t1) \<Rightarrow> (if b > 0 then RasterizerMarkRegionCached s b False t1 else t1))
         = (RasterizerMarkRegionCached start (pg_bytes k) False t)
             \<lparr>mark_calls := mark_calls (RasterizerMarkRegionCached start (pg_bytes k) False t)
                 @ map call_of (runs rest (Suc page) 0)\<rparr>"
        by simp
      with \<open>c = 0\<close> False b st show ?thesis
        by (simp add: pg z [symmetric] RasterizerMarkRegionCached_def call_of_def del: of_nat_Suc)
    qed
  next
    case False
    have st': "(if pg_bytes k = 0 then push_bit CITRA_PAGE_BITS (of_nat page) else start)
                = pg_bytes (Suc page - Suc k)"
      using Cons.prems k20 by (cases "k = 0") (simp_all add: pg_bytes_eq_0 push_bit_page)
    from Cons.IH [of "Suc page" "Suc k" "pg_bytes (Suc page - Suc k)" t] Cons.prems
    have "(case clear_loop rest (of_nat (Suc page)) (pg_bytes (Suc page - Suc k), pg_bytes (Suc k)) t of
            ((s, b), t1) \<Rightarrow> (if b > 0 then RasterizerMarkRegionCached s b False t1 else t1))
         = t\<lparr>mark_calls := mark_calls t @ map call_of (runs rest (Suc page) (Suc k))\<rparr>"
      by simp
    with False show ?thesis
      by (simp add: pg pg_bytes_Suc st' del: of_nat_Suc)
  qed
qed

lemma drop_eq_ConsD:
  assumes "c # rest = drop page full"
  shows "page < length full" "c = full ! page" "rest = drop (Suc page) full"
proof -
  show lt: "page < length full"
    using assms by (metis drop_all linorder_not_le list.distinct(1))
  from Cons_nth_drop_Suc [OF lt] assms have "c # rest = full ! page # drop (Suc page) full"
    by simp
  then show "c = full ! page" "rest = drop (Suc page) full"
    by simp_all
qed

lemma runs_props:
  assumes "xs = drop page full" "page \<le> length full" "k \<le> page"
    and "\<forall>j. page - k \<le> j \<and> j < page \<longrightarrow> full ! j \<noteq> 0"
    and "k < page \<longrightarrow> full ! (page - k - 1) = 0"
  shows "(\<forall>r \<in> set (runs xs page k). maximal_run full r \<and> page - k \<le> fst r)
       \<and> (\<forall>p. page - k \<le> p \<and> p < length full \<longrightarrow>
             length (filter (covers p) (runs xs page k)) = (if full ! p \<noteq> 0 then 1 else 0))"
  using assms
proof (induction xs arbitrary: page k)
  case Nil
  then have pl: "page = length full" by simp
  show ?case
  proof (cases "k = 0")
    case True
    then show ?thesis using pl by simp
  next
    case False
    then show ?thesis using pl Nil.prems
      by (auto simp: maximal_run_def covers_def)
  qed
next
  case (Cons c rest)
  note d = drop_eq_ConsD [OF Cons.prems(1)]
  show ?case
  proof (cases "c = 0")
    case False
    have pre4: "\<forall>j. Suc page - Suc k \<le> j \<and> j < Suc page \<longrightarrow> full ! j \<noteq> 0"
      using Cons.prems(4) False d(2) by (auto simp: less_Suc_eq)
    have pre5: "Suc k < Suc page \<longrightarrow> full ! (Suc page - Suc k - 1) = 0"
      using Cons.prems(5) by simp
    from Cons.IH [OF d(3) _ _ pre4 pre5] d(1) Cons.prems(3)
    show ?thesis using False by simp
  next
    case True
    have ih: "(\<forall>r \<in> set (runs rest (Suc page) 0). maximal_run full r \<and> Suc page \<le> fst r)
       \<and> (\<forall>p. Suc page \<le> p \<and> p < length full \<longrightarrow>
             length (filter (covers p) (runs rest (Suc page) 0)) = (if full ! p \<noteq> 0 then 1 else 0))"
    proof -
      have v: "\<forall>j. Suc page - 0 \<le> j \<and> j < Suc page \<longrightarrow> full ! j \<noteq> 0"
        by auto
      have w: "0 < Suc page \<longrightarrow> full ! (Suc page - 0 - 1) = 0"
        using d(2) True by simp
      from Cons.IH [of "Suc page" 0, OF d(3) _ _ v w] d(1) show ?thesis
        by simp
    qed
    have later: "filter (covers p) (runs rest (Suc page) 0) = []" if "p \<le> page" for p
      using ih that by (auto simp: filter_empty_conv covers_def)
    show ?thesis
    proof (cases "k = 0")
      case k0: True
      have "length (filter (covers p) (runs rest (Suc page) 0)) = (if full ! p \<noteq> 0 then 1 else 0)"
        if "page \<le> p" "p < length full" for p
      proof (cases "p = page")
        case True
        then show ?thesis using later [of page] d(2) \<open>c = 0\<close> by simp
      next
        case False
        then show ?thesis using ih that by simp
      qed
      moreover have "\<forall>r \<in> set (runs rest (Suc page) 0). maximal_run full r \<and> page \<le> fst r"
        using ih by auto
      ultimately show ?thesis using True k0 by simp
    next
      case kpos: False
      let ?r = "(page - k, k)"
      have mr: "maximal_run full ?r"
        using kpos Cons.prems d(1) d(2) True by (auto simp: maximal_run_def)
      have cnt: "length (filter (covers p) (?r # runs rest (Suc page) 0)) = (if full ! p \<noteq> 0 then 1 else 0)"
        if "page - k \<le> p" "p < length full" for p
      proof -
        consider "p < page" | "p = page" | "page < p" by linarith
        then show ?thesis
        proof cases
          case 1
          then show ?thesis using later [of p] that Cons.prems(3,4) by (simp add: covers_def)
        next
          case 2
          then show ?thesis using later [of p] d(2) True Cons.prems(3) by (simp add: covers_def)
        next
          case 3
          then have "\<not> covers p ?r" using Cons.prems(3) by (simp add: covers_def)
          then show ?thesis using ih 3 that by simp
        qed
      qed
      have "\<forall>r \<in> set (?r # runs rest (Suc page) 0). maximal_run full r \<and> page - k \<le> fst r"
        using ih mr by auto
      then show ?thesis using True kpos cnt by simp
    qed
  qed
qed

lemma clear_pages_runs:
  assumes "length (cached_pages t) < 2 ^ 20"
  shows "clear_pages t = \<lparr>cached_pages = replicate (length (cached_pages t)) 0,
                          mark_calls = mark_calls t @ map call_of (runs (cached_pages t) 0 0)\<rparr>"
proof -
  have z: "(0::u32) = pg_bytes 0" "(0::u32) = of_nat 0" by (simp_all add: pg_bytes_def)
  from clear_loop_runs [of 0 "cached_pages t" 0 0 t] assms
  have "(case clear_loop (cached_pages t) 0 (0, 0) t of
            ((s, b), t1) \<Rightarrow> (if b > 0 then RasterizerMarkRegionCached s b False t1 else t1))
         = t\<lparr>mark_calls := mark_calls t @ map call_of (runs (cached_pages t) 0 0)\<rparr>"
    by (simp add: z(1) [symmetric])
  moreover obtain s b t1 where "clear_loop (cached_pages t) 0 (0, 0) t = ((s, b), t1)"
    by (metis surj_pair)
  ultimately show ?thesis
    by (simp add: clear_pages_def Let_def)
qed

lemma call_covers_call_of:
  assumes "fst r + snd r < 2 ^ 20"
  shows "call_covers p (call_of r) = covers p r"
proof -
  have "fst r < 2 ^ 20" "snd r < 2 ^ 20" using assms by simp_all
  then show ?thesis
    by (auto simp: call_covers_def call_of_def covers_def unat_pg_bytes)
qed

lemma flush_loop_pages:
  "flush_loop sz fi fs segs (st, fl) = Inr (st1, fl1) \<Longrightarrow> pages st1 = pages st"
proof (induction segs arbitrary: st fl)
  case Nil
  then show ?case by simp
next
  case (Cons pair rest)
  show ?case
  proof (cases "fs \<noteq> None \<and> Some (snd pair) \<noteq> fs")
    case True
    then show ?thesis using Cons by (simp add: Let_def)
  next
    case False
    let ?interval = "if sz \<le> 8 then fst pair else iv_inter (fst pair) fi"
    from False Cons.prems obtain st' where
      dl: "(if surface_type (surfaces st (snd pair)) = Fill
            then DownloadFillSurface (snd pair) ?interval st
            else DownloadSurface (snd pair) ?interval st) = Inr st'"
      and rec: "flush_loop sz fi fs rest (st', regions_add ?interval fl) = Inr (st1, fl1)"
      by (auto simp: Let_def split: if_splits sum.splits)
    have "pages st' = pages st"
      using dl Download_frame [of "snd pair" ?interval st st'] by (auto split: if_splits)
    with Cons.IH [OF rec] show ?thesis by simp
  qed
qed

lemma FlushRegion_pages:
  assumes "FlushRegion a sz fs st = Inr st'"
  shows "pages st' = pages st"
proof (cases "sz = 0")
  case True
  then show ?thesis using assms by (simp add: FlushRegion_def)
next
  case False
  with assms obtain st1 fl where
    lp: "flush_loop sz (a, a + sz) fs (RangeFromInterval (dirty_regions st) (a, a + sz)) (st, []) = Inr (st1, fl)"
    and st': "st' = (run_downloads st1)\<lparr>dirty_regions := imap_minus (dirty_regions (run_downloads st1)) fl\<rparr>"
    by (auto simp: FlushRegion_def Let_def split: sum.splits)
  from flush_loop_pages [OF lp] st' show ?thesis
    by (simp add: run_downloads_def emit_def)
qed

text \<open>
  Claim C7. Whenever \<open>ClearAll\<close> returns, on a counter table whose byte range fits 32 bits:
  the calls it makes to \<open>RasterizerMarkRegionCached\<close> all say uncached, each is exactly one
  maximal run of pages with a nonzero counter, every page with a nonzero counter is covered by
  exactly one of the calls and a page with a zero counter by none, a run that ends with the
  table is reported like any other, and afterwards every counter is zero.
\<close>

theorem C7_ClearAll_uncaches_nonzero_pages:
  assumes "ClearAll flush st = Inr st'" and "length (cached_pages (pages st)) < 2 ^ 20"
  shows "\<exists>new. mark_calls (pages st') = mark_calls (pages st) @ new
       \<and> (\<forall>c \<in> set new. \<exists>s n. c = (pg_bytes s, pg_bytes n, False)
                               \<and> maximal_run (cached_pages (pages st)) (s, n))
       \<and> (\<forall>p < length (cached_pages (pages st)).
             length (filter (call_covers p) new) = (if cached_pages (pages st) ! p \<noteq> 0 then 1 else 0))
       \<and> (cached_pages (pages st) \<noteq> [] \<and> last (cached_pages (pages st)) \<noteq> 0 \<longrightarrow>
             (\<exists>s n. (pg_bytes s, pg_bytes n, False) \<in> set new
                    \<and> s + n = length (cached_pages (pages st))))
       \<and> cached_pages (pages st') = replicate (length (cached_pages (pages st))) 0"
proof -
  let ?cp = "cached_pages (pages st)"
  let ?rs = "runs ?cp 0 0"
  let ?new = "map call_of ?rs"
  from assms(1) obtain st1 where st1: "pages st1 = pages st" "st' = st1\<lparr>pages := clear_pages (pages st1)\<rparr>"
    using FlushRegion_pages [of 0 "0xFFFFFFFF" None st]
    by (cases flush) (auto simp: ClearAll_def split: sum.splits)
  have cl: "pages st' = \<lparr>cached_pages = replicate (length ?cp) 0, mark_calls = mark_calls (pages st) @ ?new\<rparr>"
    using st1 clear_pages_runs [of "pages st"] assms(2) by simp
  have rp: "(\<forall>r \<in> set ?rs. maximal_run ?cp r \<and> 0 - 0 \<le> fst r)
       \<and> (\<forall>p. 0 - 0 \<le> p \<and> p < length ?cp \<longrightarrow>
             length (filter (covers p) ?rs) = (if ?cp ! p \<noteq> 0 then 1 else 0))"
    by (rule runs_props) simp_all
  have small: "fst r + snd r < 2 ^ 20" if "r \<in> set ?rs" for r
    using rp that assms(2) by (auto simp: maximal_run_def)
  have c1: "\<forall>c \<in> set ?new. \<exists>s n. c = (pg_bytes s, pg_bytes n, False) \<and> maximal_run ?cp (s, n)"
  proof
    fix c assume "c \<in> set ?new"
    then obtain r where r: "r \<in> set ?rs" "c = call_of r" by auto
    then have "c = (pg_bytes (fst r), pg_bytes (snd r), False)" "maximal_run ?cp (fst r, snd r)"
      using rp by (simp_all add: call_of_def)
    then show "\<exists>s n. c = (pg_bytes s, pg_bytes n, False) \<and> maximal_run ?cp (s, n)" by blast
  qed
  have flt: "filter (call_covers p) ?new = map call_of (filter (covers p) ?rs)" for p
  proof -
    have "filter (call_covers p) ?new = map call_of (filter (call_covers p \<circ> call_of) ?rs)"
      by (simp add: filter_map)
    also have "filter (call_covers p \<circ> call_of) ?rs = filter (covers p) ?rs"
    proof (rule filter_cong [OF refl])
      fix x assume "x \<in> set ?rs"
      from call_covers_call_of [OF small [OF this]]
      show "(call_covers p \<circ> call_of) x = covers p x" by simp
    qed
    finally show ?thesis .
  qed
  have c2: "\<forall>p < length ?cp. length (filter (call_covers p) ?new) = (if ?cp ! p \<noteq> 0 then 1 else 0)"
    using rp by (simp add: flt)
  have c3: "\<exists>s n. (pg_bytes s, pg_bytes n, False) \<in> set ?new \<and> s + n = length ?cp"
    if ne: "?cp \<noteq> []" and l: "last ?cp \<noteq> 0"
  proof -
    let ?p = "length ?cp - 1"
    have p: "?p < length ?cp" "?cp ! ?p \<noteq> 0" using ne l by (simp_all add: last_conv_nth)
    then have "length (filter (covers ?p) ?rs) = 1" using rp by simp
    then have "filter (covers ?p) ?rs \<noteq> []" by auto
    then obtain r where "r \<in> set (filter (covers ?p) ?rs)"
      by (metis hd_in_set)
    then have r: "r \<in> set ?rs" "covers ?p r" by simp_all
    then have "maximal_run ?cp r" using rp by simp
    then have "fst r + snd r = length ?cp" using r(2) p(1) by (auto simp: maximal_run_def covers_def)
    moreover have "(pg_bytes (fst r), pg_bytes (snd r), False) \<in> set ?new"
      using r(1) by (force simp: call_of_def)
    ultimately show ?thesis by blast
  qed
  show ?thesis
    using cl c1 c2 c3 by (intro exI [of _ ?new]) simp
qed

theorem C7_ClearAll_uncaches_nonzero_pages_witness:
  "\<exists>st'. ClearAll True (ex_cache\<lparr>pages := \<lparr>cached_pages = [0, 1, 3, 1, 0, 2], mark_calls = []\<rparr>\<rparr>) = Inr st'
       \<and> mark_calls (pages st') = [(0x1000, 0x3000, False), (0x5000, 0x1000, False)]
       \<and> cached_pages (pages st') = replicate 6 0
       \<and> (\<exists>s n. (pg_bytes s, pg_bytes n, False) \<in> set (mark_calls (pages st')) \<and> s + n = 6)"
proof -
  let ?st = "ex_cache\<lparr>pages := \<lparr>cached_pages = [0, 1, 3, 1, 0, 2], mark_calls = []\<rparr>\<rparr>"
  have "(case ClearAll True ?st of Inl e \<Rightarrow> Inl e | Inr st \<Rightarrow> Inr (pages st))
          = Inr \<lparr>cached_pages = replicate 6 0,
                 mark_calls = [(0x1000, 0x3000, False), (0x5000, 0x1000, False)]\<rparr>"
    by code_simp
  then obtain st' where s: "ClearAll True ?st = Inr st'"
    "pages st' = \<lparr>cached_pages = replicate 6 0,
                  mark_calls = [(0x1000, 0x3000, False), (0x5000, 0x1000, False)]\<rparr>"
    by (auto split: sum.splits)
  have l: "length (cached_pages (pages ?st)) < 2 ^ 20" by simp
  from C7_ClearAll_uncaches_nonzero_pages [OF s(1) l] obtain new where
    n: "mark_calls (pages st') = mark_calls (pages ?st) @ new"
    and tr: "cached_pages (pages ?st) \<noteq> [] \<and> last (cached_pages (pages ?st)) \<noteq> 0 \<longrightarrow>
             (\<exists>s n. (pg_bytes s, pg_bytes n, False) \<in> set new
                    \<and> s + n = length (cached_pages (pages ?st)))"
    by blast
  have "new = mark_calls (pages st')" using n by simp
  with tr have "\<exists>s n. (pg_bytes s, pg_bytes n, False) \<in> set (mark_calls (pages st')) \<and> s + n = 6"
    by (simp add: eval_nat_numeral)
  moreover have "mark_calls (pages st') = [(0x1000, 0x3000, False), (0x5000, 0x1000, False)]"
    "cached_pages (pages st') = replicate 6 0"
    using s(2) by simp_all
  ultimately show ?thesis using s(1) by blast
qed


section \<open>Properties of InvalidateRegion\<close>

lemma same_frame_refl: "same_frame st st"
  by (simp add: same_frame_def)

lemma same_frame_trans: "same_frame st st1 \<Longrightarrow> same_frame st1 st2 \<Longrightarrow> same_frame st st2"
  by (simp add: same_frame_def)

lemma flush_evidence_frame:
  "same_frame st st1 \<Longrightarrow> flush_evidence st1 s i evs = flush_evidence st s i evs"
  by (simp add: same_frame_def flush_evidence_def)

lemma flush_evidence_mono:
  "flush_evidence st s i evs \<Longrightarrow> set evs \<subseteq> set evs' \<Longrightarrow> flush_evidence st s i evs'"
  by (auto simp: flush_evidence_def)

lemma Download_step:
  assumes "(if surface_type (surfaces st s) = Fill
            then DownloadFillSurface s i st else DownloadSurface s i st) = Inr st'"
  shows "same_frame st st' \<and> dirty_regions st' = dirty_regions st
       \<and> (\<exists>es. events st' = events st @ es \<and> flush_evidence st s i es)"
  using assms
  by (auto simp: DownloadSurface_def DownloadFillSurface_def emit_def Let_def same_frame_def
        flush_evidence_def split: if_splits)

lemma flush_interval_of_sub:
  "iv_bytes (flush_interval_of sz fi i) \<subseteq> iv_bytes i"
  by (simp add: flush_interval_of_def iv_bytes_inter)

lemma flush_loop_effect:
  assumes "flush_loop sz fi fs segs (st, fl) = Inr (st1, fl1)" "regions_nonempty fl"
  shows "same_frame st st1
       \<and> (\<exists>es. events st1 = events st @ es
             \<and> (\<forall>p \<in> set segs. (fs = None \<or> fs = Some (snd p)) \<longrightarrow>
                   flush_evidence st (snd p) (flush_interval_of sz fi (fst p)) es))
       \<and> region_bytes fl1 \<subseteq> region_bytes fl
             \<union> (\<Union>p \<in> {p \<in> set segs. fs = None \<or> fs = Some (snd p)}. iv_bytes (fst p))"
  using assms
proof (induction segs arbitrary: st fl)
  case Nil
  then show ?case by (simp add: same_frame_refl)
next
  case (Cons pair rest)
  let ?interval = "flush_interval_of sz fi (fst pair)"
  show ?case
  proof (cases "fs \<noteq> None \<and> Some (snd pair) \<noteq> fs")
    case True
    then have "flush_loop sz fi fs rest (st, fl) = Inr (st1, fl1)"
      using Cons.prems(1) by (simp add: Let_def)
    from Cons.IH [OF this Cons.prems(2)] True show ?thesis by auto
  next
    case False
    from False Cons.prems(1) obtain st' where
      dl: "(if surface_type (surfaces st (snd pair)) = Fill
            then DownloadFillSurface (snd pair) ?interval st
            else DownloadSurface (snd pair) ?interval st) = Inr st'"
      and rec: "flush_loop sz fi fs rest (st', regions_add ?interval fl) = Inr (st1, fl1)"
      by (auto simp: Let_def flush_interval_of_def split: if_splits sum.splits)
    from Download_step [OF dl] obtain es1 where
      f1: "same_frame st st'" and e1: "events st' = events st @ es1"
      "flush_evidence st (snd pair) ?interval es1" by blast
    note ra = regions_add_props [OF Cons.prems(2), of ?interval]
    from Cons.IH [OF rec] ra obtain es2 where
      f2: "same_frame st' st1" and e2: "events st1 = events st' @ es2"
      and ev2: "\<forall>p \<in> set rest. (fs = None \<or> fs = Some (snd p)) \<longrightarrow>
                   flush_evidence st' (snd p) (flush_interval_of sz fi (fst p)) es2"
      and b2: "region_bytes fl1 \<subseteq> region_bytes (regions_add ?interval fl)
             \<union> (\<Union>p \<in> {p \<in> set rest. fs = None \<or> fs = Some (snd p)}. iv_bytes (fst p))"
      by blast
    have ev: "\<forall>p \<in> set (pair # rest). (fs = None \<or> fs = Some (snd p)) \<longrightarrow>
                   flush_evidence st (snd p) (flush_interval_of sz fi (fst p)) (es1 @ es2)"
    proof (intro ballI impI)
      fix p assume p: "p \<in> set (pair # rest)" "fs = None \<or> fs = Some (snd p)"
      show "flush_evidence st (snd p) (flush_interval_of sz fi (fst p)) (es1 @ es2)"
      proof (cases "p = pair")
        case True
        then show ?thesis using e1(2) flush_evidence_mono [of st "snd pair" ?interval es1 "es1 @ es2"]
          by simp
      next
        case False
        then have "p \<in> set rest" using p(1) by simp
        with ev2 p(2) have "flush_evidence st' (snd p) (flush_interval_of sz fi (fst p)) es2" by blast
        then have "flush_evidence st (snd p) (flush_interval_of sz fi (fst p)) es2"
          using flush_evidence_frame [OF f1] by simp
        then show ?thesis by (rule flush_evidence_mono) simp
      qed
    qed
    have bytes: "region_bytes fl1 \<subseteq> region_bytes fl
             \<union> (\<Union>p \<in> {p \<in> set (pair # rest). fs = None \<or> fs = Some (snd p)}. iv_bytes (fst p))"
      using b2 ra False flush_interval_of_sub [of sz fi "fst pair"] by auto
    have "events st1 = events st @ (es1 @ es2)" using e1(1) e2 by simp
    with ev bytes same_frame_trans [OF f1 f2] show ?thesis by blast
  qed
qed

lemma imap_erase_keep:
  assumes "(i, v) \<in> set m" "b \<in> iv_bytes i" "b \<notin> iv_bytes j"
  shows "\<exists>i'. (i', v) \<in> set (imap_erase j m) \<and> b \<in> iv_bytes i'"
proof (cases "iv_empty j")
  case True
  then have "imap_erase j m = m" by (simp add: imap_erase_def)
  then show ?thesis using assms(1,2) by metis
next
  case False
  have "b \<in> imap_bytes (seg_minus i v j)"
    using assms(2,3) by (simp add: seg_minus_bytes [OF False])
  then obtain q where q: "q \<in> set (seg_minus i v j)" "b \<in> iv_bytes (fst q)"
    by (auto simp: imap_bytes_def)
  have "(fst q, snd q) \<in> set (seg_minus i v j)" using q(1) by simp
  from seg_minus_sub [OF this] have "snd q = v" by simp
  then have "(fst q, v) \<in> set (imap_erase j m)"
    using q(1) assms(1) False by (force simp: imap_erase_def)
  then show ?thesis using q(2) by blast
qed

lemma imap_minus_keep:
  assumes "(i, v) \<in> set m" "b \<in> iv_bytes i" "b \<notin> region_bytes r"
  shows "\<exists>i'. (i', v) \<in> set (imap_minus m r) \<and> b \<in> iv_bytes i'"
  using assms
proof (induction r arbitrary: m i)
  case Nil
  have "imap_minus m [] = m" by (simp add: imap_minus_def)
  then show ?case using Nil(1,2) by metis
next
  case (Cons j r)
  from Cons.prems have "b \<notin> iv_bytes j" "b \<notin> region_bytes r" by (auto simp: region_bytes_def)
  from imap_erase_keep [OF Cons.prems(1,2) this(1)] obtain i1 where
    "(i1, v) \<in> set (imap_erase j m)" "b \<in> iv_bytes i1" by blast
  from Cons.IH [OF this \<open>b \<notin> region_bytes r\<close>] show ?case by (simp add: imap_minus_def)
qed

lemma refines_dirty_refl: "refines_dirty m m"
  by (force simp: refines_dirty_def)



lemma FlushRegion_effect:
  assumes "FlushRegion a sz fs st = Inr st'"
  shows "same_frame st st' \<and> refines_dirty (dirty_regions st') (dirty_regions st)
       \<and> (\<exists>es. events st' = events st @ es
             \<and> (sz \<noteq> 0 \<longrightarrow>
                  (\<forall>p \<in> set (dirty_regions st). (fs = None \<or> fs = Some (snd p)) \<longrightarrow>
                     (\<forall>b \<in> iv_bytes (fst p) \<inter> iv_bytes (a, a + sz).
                        \<exists>i. b \<in> iv_bytes i \<and> flush_evidence st (snd p) i es))))
       \<and> (\<forall>p \<in> set (dirty_regions st). \<forall>b \<in> iv_bytes (fst p).
             (\<forall>q \<in> set (dirty_regions st). fs = None \<or> fs = Some (snd q) \<longrightarrow> b \<notin> iv_bytes (fst q)) \<longrightarrow>
             (\<exists>i'. (i', snd p) \<in> set (dirty_regions st') \<and> b \<in> iv_bytes i'))"
proof (cases "sz = 0")
  case True
  then have "st' = st" using assms by (simp add: FlushRegion_def)
  then show ?thesis using True by (force simp: same_frame_refl refines_dirty_refl)
next
  case False
  let ?fi = "(a, a + sz)"
  let ?segs = "RangeFromInterval (dirty_regions st) ?fi"
  from assms False obtain st1 fl where
    lp: "flush_loop sz ?fi fs ?segs (st, []) = Inr (st1, fl)"
    and st': "st' = (run_downloads st1)\<lparr>dirty_regions := imap_minus (dirty_regions (run_downloads st1)) fl\<rparr>"
    by (auto simp: FlushRegion_def Let_def split: sum.splits)
  have e: "regions_nonempty []" by (simp add: regions_nonempty_def)
  from flush_loop_props [OF lp e] have d1: "dirty_regions st1 = dirty_regions st" by simp
  from flush_loop_effect [OF lp e] obtain es where
    fr: "same_frame st st1" and es: "events st1 = events st @ es"
    and ev: "\<forall>p \<in> set ?segs. (fs = None \<or> fs = Some (snd p)) \<longrightarrow>
                   flush_evidence st (snd p) (flush_interval_of sz ?fi (fst p)) es"
    and fb: "region_bytes fl \<subseteq> region_bytes []
             \<union> (\<Union>p \<in> {p \<in> set ?segs. fs = None \<or> fs = Some (snd p)}. iv_bytes (fst p))"
    by blast
  have dd: "dirty_regions st' = imap_minus (dirty_regions st) fl"
    using st' d1 by (simp add: run_downloads_props)
  have frame: "same_frame st st'"
    using fr st' by (simp add: same_frame_def run_downloads_def emit_def)
  have ref: "refines_dirty (dirty_regions st') (dirty_regions st)"
    unfolding refines_dirty_def dd
  proof
    fix q assume "q \<in> set (imap_minus (dirty_regions st) fl)"
    then have "(fst q, snd q) \<in> set (imap_minus (dirty_regions st) fl)" by simp
    from imap_minus_sub [OF this] show "\<exists>i. (i, snd q) \<in> set (dirty_regions st) \<and> iv_bytes (fst q) \<subseteq> iv_bytes i"
      by blast
  qed
  define es' where "es' = es @ (if download_queue st1 \<noteq> []
      then Finish # map (\<lambda>(s, flush_start, flush_end). WriteBack s flush_start flush_end) (download_queue st1)
      else [])"
  have es': "events st' = events st @ es'" "set es \<subseteq> set es'"
    using es st' by (simp_all add: run_downloads_def emit_def es'_def)
  have evid: "\<forall>p \<in> set (dirty_regions st). (fs = None \<or> fs = Some (snd p)) \<longrightarrow>
                     (\<forall>b \<in> iv_bytes (fst p) \<inter> iv_bytes ?fi.
                        \<exists>i. b \<in> iv_bytes i \<and> flush_evidence st (snd p) i es')"
  proof (intro ballI impI)
    fix p b assume p: "p \<in> set (dirty_regions st)" "fs = None \<or> fs = Some (snd p)"
      and b: "b \<in> iv_bytes (fst p) \<inter> iv_bytes ?fi"
    then have "iv_overlaps (fst p) ?fi" by (auto simp: iv_overlaps_bytes)
    then have "p \<in> set ?segs" using p(1) by (simp add: RangeFromInterval_def)
    with ev p(2) have "flush_evidence st (snd p) (flush_interval_of sz ?fi (fst p)) es" by blast
    then have "flush_evidence st (snd p) (flush_interval_of sz ?fi (fst p)) es'"
      using es'(2) by (rule flush_evidence_mono)
    moreover have "b \<in> iv_bytes (flush_interval_of sz ?fi (fst p))"
      using b by (auto simp: flush_interval_of_def iv_bytes_inter)
    ultimately show "\<exists>i. b \<in> iv_bytes i \<and> flush_evidence st (snd p) i es'" by blast
  qed
  have keep: "\<forall>p \<in> set (dirty_regions st). \<forall>b \<in> iv_bytes (fst p).
             (\<forall>q \<in> set (dirty_regions st). fs = None \<or> fs = Some (snd q) \<longrightarrow> b \<notin> iv_bytes (fst q)) \<longrightarrow>
             (\<exists>i'. (i', snd p) \<in> set (dirty_regions st') \<and> b \<in> iv_bytes i')"
  proof (intro ballI impI)
    fix p b assume p: "p \<in> set (dirty_regions st)" and b: "b \<in> iv_bytes (fst p)"
      and nb: "\<forall>q \<in> set (dirty_regions st). fs = None \<or> fs = Some (snd q) \<longrightarrow> b \<notin> iv_bytes (fst q)"
    have "b \<notin> region_bytes fl"
    proof
      assume "b \<in> region_bytes fl"
      with fb obtain q where "q \<in> set ?segs" "fs = None \<or> fs = Some (snd q)" "b \<in> iv_bytes (fst q)"
        by (auto simp: region_bytes_def)
      with nb show False by (auto simp: RangeFromInterval_def)
    qed
    moreover have "(fst p, snd p) \<in> set (dirty_regions st)" using p by simp
    ultimately show "\<exists>i'. (i', snd p) \<in> set (dirty_regions st') \<and> b \<in> iv_bytes i'"
      unfolding dd using b by (rule imap_minus_keep [rotated 2])
  qed
  show ?thesis using frame ref es'(1) evid keep False by blast
qed

lemma imap_join_covered:
  "(i, v) \<in> set (imap_join m) \<Longrightarrow> b \<in> iv_bytes i \<Longrightarrow> \<exists>i0. (i0, v) \<in> set m \<and> b \<in> iv_bytes i0"
proof (induction m arbitrary: i rule: imap_join.induct)
  case (1 p q rest)
  show ?case
  proof (cases "snd (fst p) = fst (fst q) \<and> snd p = snd q")
    case True
    let ?pq = "((fst (fst p), snd (fst q)), snd p)"
    from "1.prems" True have "(i, v) \<in> set (imap_join (?pq # rest))" by simp
    from "1.IH"(1) [OF True this "1.prems"(2)] obtain i0 where
      i0: "(i0, v) \<in> set (?pq # rest)" "b \<in> iv_bytes i0" by blast
    show ?thesis
    proof (cases "(i0, v) = ?pq")
      case pq: True
      then have "b \<in> iv_bytes (fst p) \<or> b \<in> iv_bytes (fst q)"
        using i0(2) True by (auto simp: iv_bytes_def)
      moreover have "(fst p, v) \<in> set (p # q # rest)" "(fst q, v) \<in> set (p # q # rest)"
        using pq True by (simp_all add: prod_eq_iff)
      ultimately show ?thesis by blast
    next
      case False
      then have "(i0, v) \<in> set rest" using i0(1) by auto
      then have "(i0, v) \<in> set (p # q # rest)" by simp
      then show ?thesis using i0(2) by blast
    qed
  next
    case False
    from "1.prems" False have "(i, v) = p \<or> (i, v) \<in> set (imap_join (q # rest))" by simp
    then show ?thesis
    proof
      assume "(i, v) = p"
      then have "(i, v) \<in> set (p # q # rest)" by simp
      then show ?thesis using "1.prems"(2) by blast
    next
      assume "(i, v) \<in> set (imap_join (q # rest))"
      from "1.IH"(2) [OF False this "1.prems"(2)] obtain i0 where
        "(i0, v) \<in> set (q # rest)" "b \<in> iv_bytes i0" by blast
      then have "(i0, v) \<in> set (p # q # rest)" "b \<in> iv_bytes i0" by simp_all
      then show ?thesis by blast
    qed
  qed
next
  case "2_1"
  then show ?case by simp
next
  case "2_2"
  then show ?case unfolding imap_join.simps by blast
qed

lemma cache_subtract_at:
  assumes "in_cache_at (cache_subtract i s m) b x"
  shows "in_cache_at m b x \<and> \<not> (x = s \<and> b \<in> iv_bytes i)"
proof (cases "iv_empty i")
  case True
  then show ?thesis using assms by (simp add: cache_subtract_def iv_empty_bytes)
next
  case False
  let ?inside = "filter (\<lambda>p. snd p \<noteq> [])
                  (map (\<lambda>p. (iv_inter (fst p) i, removeAll s (snd p))) (RangeFromInterval m i))"
  from assms False obtain p where
    p: "p \<in> set (imap_join (sort_key (\<lambda>q. fst (fst q)) (imap_erase i m @ ?inside)))"
       "b \<in> iv_bytes (fst p)" "x \<in> set (snd p)"
    by (auto simp: cache_subtract_def in_cache_at_def)
  have "(fst p, snd p) \<in> set (imap_join (sort_key (\<lambda>q. fst (fst q)) (imap_erase i m @ ?inside)))"
    using p(1) by simp
  from imap_join_covered [OF this p(2)] obtain i0 where
    i0: "(i0, snd p) \<in> set (imap_erase i m) \<or> (i0, snd p) \<in> set ?inside" "b \<in> iv_bytes i0"
    by auto
  from i0(1) show ?thesis
  proof
    assume "(i0, snd p) \<in> set (imap_erase i m)"
    from imap_erase_sub [OF this] obtain i1 where
      "(i1, snd p) \<in> set m" "iv_bytes i0 \<subseteq> iv_bytes i1" "iv_bytes i0 \<inter> iv_bytes i = {}" by blast
    then show ?thesis using i0(2) p(3) by (force simp: in_cache_at_def)
  next
    assume "(i0, snd p) \<in> set ?inside"
    then obtain q where q: "q \<in> set m" "i0 = iv_inter (fst q) i" "snd p = removeAll s (snd q)"
      by (auto simp: RangeFromInterval_def)
    then have "b \<in> iv_bytes (fst q)" "x \<in> set (snd q)" "x \<noteq> s"
      using i0(2) p(3) by (auto simp: iv_bytes_inter)
    then show ?thesis using q(1) by (auto simp: in_cache_at_def)
  qed
qed

lemma UnregisterSurface_effect:
  assumes "UnregisterSurface r st = Inr st'"
  shows "dirty_regions st' = dirty_regions st \<and> events st' = events st
       \<and> remove_surfaces st' = remove_surfaces st \<and> mapped st' = mapped st
       \<and> (\<forall>x. x \<noteq> r \<longrightarrow> surfaces st' x = surfaces st x)
       \<and> surfaces st' r = (surfaces st r)\<lparr>registered := False\<rparr>
       \<and> surface_cache st' = (if registered (surfaces st r)
                               then cache_subtract (GetInterval (surfaces st r)) r (surface_cache st)
                               else surface_cache st)"
proof (cases "registered (surfaces st r)")
  case False
  then have "st' = st" using assms by (simp add: UnregisterSurface_def)
  moreover have "(surfaces st r)\<lparr>registered := False\<rparr> = surfaces st r" using False by simp
  ultimately show ?thesis using False by simp
next
  case True
  then show ?thesis using assms
    by (auto simp: UnregisterSurface_def update_surface_def Let_def GetInterval_def split: sum.splits)
qed

lemma unregister_loop:
  assumes "remove_loop api None rs st = Inr st'"
  shows "dirty_regions st' = dirty_regions st \<and> events st' = events st
       \<and> (\<forall>b x. in_cache_at (surface_cache st') b x \<longrightarrow> in_cache_at (surface_cache st) b x)
       \<and> (\<forall>x. \<not> registered (surfaces st x) \<longrightarrow> \<not> registered (surfaces st' x))
       \<and> (\<forall>x. GetInterval (surfaces st' x) = GetInterval (surfaces st x))
       \<and> (\<forall>r \<in> set rs. \<not> registered (surfaces st' r))
       \<and> (\<forall>r \<in> set rs. registered (surfaces st r) \<longrightarrow>
             (\<forall>b \<in> iv_bytes (GetInterval (surfaces st r)). \<not> in_cache_at (surface_cache st') b r))"
  using assms
proof (induction rs arbitrary: st)
  case Nil
  then show ?case by simp
next
  case (Cons r0 rest)
  from Cons.prems obtain st1 where
    u: "UnregisterSurface r0 st = Inr st1" and l: "remove_loop api None rest st1 = Inr st'"
    by (auto simp: remove_step_def split: sum.splits)
  note e = UnregisterSurface_effect [OF u]
  note ih = Cons.IH [OF l]
  have shrink1: "in_cache_at (surface_cache st1) b x \<Longrightarrow> in_cache_at (surface_cache st) b x" for b x
    using e cache_subtract_at [of "GetInterval (surfaces st r0)" r0 "surface_cache st" b x]
    by (auto split: if_splits)
  have gi1: "GetInterval (surfaces st1 x) = GetInterval (surfaces st x)" for x
    using e by (cases "x = r0") (simp_all add: GetInterval_def)
  have reg1: "\<not> registered (surfaces st x) \<Longrightarrow> \<not> registered (surfaces st1 x)" for x
    using e by (cases "x = r0") simp_all
  have r0: "\<not> registered (surfaces st' r0)"
    using e ih by simp
  have gone: "\<not> in_cache_at (surface_cache st') b r"
    if r: "r \<in> set (r0 # rest)" "registered (surfaces st r)" and b: "b \<in> iv_bytes (GetInterval (surfaces st r))"
    for r b
  proof (cases "r = r0")
    case True
    have "\<not> in_cache_at (surface_cache st1) b r0"
      using e r(2) b True cache_subtract_at [of "GetInterval (surfaces st r0)" r0 "surface_cache st" b r0]
      by auto
    then show ?thesis using ih True by blast
  next
    case False
    then have "r \<in> set rest" "registered (surfaces st1 r)" using r e by simp_all
    moreover have "b \<in> iv_bytes (GetInterval (surfaces st1 r))" using b gi1 by simp
    ultimately show ?thesis using ih by blast
  qed
  show ?case
    using e ih shrink1 gi1 reg1 r0 gone by (auto simp del: split_paired_All)
qed


lemma distinct_set_insert: "distinct xs \<Longrightarrow> distinct (set_insert s xs)"
  by (simp add: set_insert_def distinct_insort)

lemma invalidate_pairs_flat:
  "invalidate_pairs_loop ii sz ro segs st = invalidate_set_loop ii sz ro (concat (map snd segs)) st"
proof (induction segs arbitrary: st)
  case Nil
  then show ?case by simp
next
  case (Cons pair rest)
  have app: "invalidate_set_loop ii sz ro (xs @ ys) st0 =
         (case invalidate_set_loop ii sz ro xs st0 of Inl e \<Rightarrow> Inl e
          | Inr st1 \<Rightarrow> invalidate_set_loop ii sz ro ys st1)" for xs ys st0
    by (induction xs arbitrary: st0) (simp_all split: sum.splits)
  show ?case by (simp add: app Cons.IH split: sum.splits)
qed








section \<open>Properties of the removal loop of InvalidateRegion\<close>

lemma remove_loop_append:
  "remove_loop api ro (xs @ ys) st =
     (case remove_loop api ro xs st of Inl e \<Rightarrow> Inl e | Inr m \<Rightarrow> remove_loop api ro ys m)"
  by (induction xs arbitrary: st) (simp_all split: sum.splits)

lemma remove_loop_others:
  "\<forall>r \<in> set rs. Some r \<noteq> ro \<Longrightarrow> remove_loop api ro rs st = remove_loop api None rs st"
  by (induction rs arbitrary: st) (simp_all add: remove_step_def split: sum.splits)

lemma unregister_loop_surfaces:
  assumes "remove_loop api None rs st = Inr st'"
  shows "(\<forall>x. x \<notin> set rs \<longrightarrow> surfaces st' x = surfaces st x) \<and> remove_surfaces st' = remove_surfaces st"
  using assms
proof (induction rs arbitrary: st)
  case Nil
  then show ?case by simp
next
  case (Cons r0 rest)
  from Cons.prems obtain st1 where
    u: "UnregisterSurface r0 st = Inr st1" and l: "remove_loop api None rest st1 = Inr st'"
    by (auto simp: remove_step_def split: sum.splits)
  from UnregisterSurface_effect [OF u] Cons.IH [OF l] show ?case by simp
qed

lemma BlitSurfaces_effect:
  "events (BlitSurfaces api s d st) = events st @
      (if CheckFormatsBlittable api (pixel_format (surfaces st s)) (pixel_format (surfaces st d))
       then [InvalidateAllWatcher d, Blit s d] else [])
   \<and> surfaces (BlitSurfaces api s d st) = surfaces st"
  by (simp add: BlitSurfaces_def emit_def)

lemma DuplicateSurface_effect:
  assumes "DuplicateSurface api s d st = Inr st'"
  shows "events st' = events st @
      (if CheckFormatsBlittable api (pixel_format (surfaces st s)) (pixel_format (surfaces st d))
       then [InvalidateAllWatcher d, Blit s d] else [])
   \<and> (\<forall>x. registered (surfaces st' x) = registered (surfaces st x))"
  using assms BlitSurfaces_effect [of api s d st]
  by (auto simp: DuplicateSurface_def update_surface_def Let_def split: if_splits)

lemma owner_step:
  assumes "remove_step api (Some owner) owner mid = Inr st1"
  obtains expanded where
    "FindMatch api {SubRect, Invalid} (surfaces mid) (surface_cache mid)
        (SurfaceParams.truncate (surfaces mid owner)) Ignore None = Inr (Some expanded)"
    "regions_minus (invalid_regions (surfaces mid owner)) (invalid_regions (surfaces mid expanded)) = []
       \<Longrightarrow> \<exists>dup. DuplicateSurface api owner expanded mid = Inr dup \<and> UnregisterSurface owner dup = Inr st1"
    "regions_minus (invalid_regions (surfaces mid owner)) (invalid_regions (surfaces mid expanded)) \<noteq> []
       \<Longrightarrow> st1 = mid"
proof -
  let ?fm = "FindMatch api {SubRect, Invalid} (surfaces mid) (surface_cache mid)
        (SurfaceParams.truncate (surfaces mid owner)) Ignore None"
  have step: "remove_step api (Some owner) owner mid =
     (case ?fm of
           Inl e \<Rightarrow> Inl e
         | Inr None \<Rightarrow> Inl AssertionFailed
         | Inr (Some expanded_surface) \<Rightarrow>
             if regions_minus (invalid_regions (surfaces mid owner))
                  (invalid_regions (surfaces mid expanded_surface)) = []
             then (case DuplicateSurface api owner expanded_surface mid of
                     Inl e \<Rightarrow> Inl e
                   | Inr st1 \<Rightarrow> UnregisterSurface owner st1)
             else Inr mid)"
    unfolding remove_step_def by (simp only: if_True refl)
  from assms obtain expanded where fm: "?fm = Inr (Some expanded)"
    unfolding step by (cases ?fm) (simp_all split: option.splits)
  let ?c = "regions_minus (invalid_regions (surfaces mid owner)) (invalid_regions (surfaces mid expanded)) = []"
  from assms have r: "(if ?c then (case DuplicateSurface api owner expanded mid of
                     Inl e \<Rightarrow> Inl e
                   | Inr st1 \<Rightarrow> UnregisterSurface owner st1)
             else Inr mid) = Inr st1"
    unfolding step fm by simp
  have 1: "\<exists>dup. DuplicateSurface api owner expanded mid = Inr dup \<and> UnregisterSurface owner dup = Inr st1"
    if ?c
    using r that by (cases "DuplicateSurface api owner expanded mid") simp_all
  have 2: "st1 = mid" if "\<not> ?c" using r that by simp
  from fm 1 2 show thesis by (rule that)
qed

lemma split_at_owner:
  assumes "owner \<in> set rs" "distinct rs"
  obtains post where "rs = takeWhile (\<lambda>r. r \<noteq> owner) rs @ owner # post"
    "owner \<notin> set (takeWhile (\<lambda>r. r \<noteq> owner) rs)" "owner \<notin> set post"
proof -
  let ?pre = "takeWhile (\<lambda>r. r \<noteq> owner) rs"
  have "dropWhile (\<lambda>r. r \<noteq> owner) rs \<noteq> []" using assms(1) by simp
  then obtain x post where dw: "dropWhile (\<lambda>r. r \<noteq> owner) rs = x # post"
    by (cases "dropWhile (\<lambda>r. r \<noteq> owner) rs") auto
  then have "x = owner" using hd_dropWhile [of "\<lambda>r. r \<noteq> owner" rs] by force
  with dw have rs: "rs = ?pre @ owner # post"
    using takeWhile_dropWhile_id [of "\<lambda>r. r \<noteq> owner" rs] by simp
  have 1: "owner \<notin> set ?pre" using set_takeWhileD by fastforce
  have "distinct (?pre @ owner # post)" using assms(2) rs by simp
  then have 2: "owner \<notin> set post" by simp
  from rs 1 2 show thesis by (rule that)
qed

lemma invalidate_surface_staged:
  assumes "invalidate_surface ii sz ro s st = Inr st'" "distinct (remove_surfaces st)"
  shows "distinct (remove_surfaces st')"
proof -
  have fr: "remove_surfaces stf = remove_surfaces st" if "FlushRegion a n fs st = Inr stf" for a n fs stf
    using FlushRegion_effect [OF that] by (simp add: same_frame_def)
  show ?thesis
    using assms fr distinct_set_insert
    by (auto simp: invalidate_surface_def Let_def emit_def update_surface_def
          split: if_splits sum.splits)
qed

lemma invalidate_set_loop_staged:
  "invalidate_set_loop ii sz ro ss st = Inr st' \<Longrightarrow> distinct (remove_surfaces st)
     \<Longrightarrow> distinct (remove_surfaces st')"
proof (induction ss arbitrary: st)
  case Nil
  then show ?case by simp
next
  case (Cons s rest)
  from Cons.prems(1) obtain st1 where
    step: "invalidate_surface ii sz ro s st = Inr st1"
    and rest: "invalidate_set_loop ii sz ro rest st1 = Inr st'"
    by (auto split: sum.splits)
  from Cons.IH [OF rest invalidate_surface_staged [OF step Cons.prems(2)]] show ?case .
qed

lemma invalidate_mark_staged:
  assumes "invalidate_mark a sz ro st = Inr marked" "distinct (remove_surfaces st)"
  shows "distinct (remove_surfaces marked)"
proof -
  have "\<exists>st1 st2. remove_surfaces st1 = remove_surfaces st
      \<and> invalidate_pairs_loop (a, a + sz) sz ro (RangeFromInterval (surface_cache st1) (a, a + sz)) st1 = Inr st2
      \<and> remove_surfaces marked = remove_surfaces st2"
  proof (cases ro)
    case None
    with assms(1) obtain st2 where
      "invalidate_pairs_loop (a, a + sz) sz ro (RangeFromInterval (surface_cache st) (a, a + sz)) st = Inr st2"
      "remove_surfaces marked = remove_surfaces st2"
      by (auto simp: invalidate_mark_def Let_def split: sum.splits)
    then show ?thesis by blast
  next
    case (Some owner)
    let ?st1 = "update_surface owner
                  (\<lambda>x. x\<lparr>invalid_regions := regions_erase (a, a + sz) (invalid_regions x)\<rparr>) st"
    from Some assms(1) obtain st2 where
      "invalidate_pairs_loop (a, a + sz) sz ro (RangeFromInterval (surface_cache ?st1) (a, a + sz)) ?st1 = Inr st2"
      "remove_surfaces marked = remove_surfaces st2"
      by (auto simp: invalidate_mark_def Let_def split: sum.splits if_splits)
    moreover have "remove_surfaces ?st1 = remove_surfaces st" by (simp add: update_surface_def)
    ultimately show ?thesis by blast
  qed
  then obtain st1 st2 where
    s1: "remove_surfaces st1 = remove_surfaces st"
    and lp: "invalidate_pairs_loop (a, a + sz) sz ro (RangeFromInterval (surface_cache st1) (a, a + sz)) st1 = Inr st2"
    and m: "remove_surfaces marked = remove_surfaces st2"
    by blast
  from lp have "invalidate_set_loop (a, a + sz) sz ro
                  (concat (map snd (RangeFromInterval (surface_cache st1) (a, a + sz)))) st1 = Inr st2"
    by (simp add: invalidate_pairs_flat)
  from invalidate_set_loop_staged [OF this] s1 assms(2) m show ?thesis by simp
qed

lemma remove_loop_owner_split:
  assumes "remove_loop api (Some owner) rs st = Inr st3" "owner \<in> set rs" "distinct rs"
  obtains mid st1 post where
    "remove_loop api (Some owner) (takeWhile (\<lambda>r. r \<noteq> owner) rs) st = Inr mid"
    "remove_loop api None (takeWhile (\<lambda>r. r \<noteq> owner) rs) st = Inr mid"
    "remove_step api (Some owner) owner mid = Inr st1"
    "remove_loop api None post st1 = Inr st3"
    "rs = takeWhile (\<lambda>r. r \<noteq> owner) rs @ owner # post"
    "owner \<notin> set (takeWhile (\<lambda>r. r \<noteq> owner) rs)" "owner \<notin> set post"
proof -
  let ?pre = "takeWhile (\<lambda>r. r \<noteq> owner) rs"
  from split_at_owner [OF assms(2,3)] obtain post where
    sp: "rs = ?pre @ owner # post" "owner \<notin> set ?pre" "owner \<notin> set post" by blast
  have "remove_loop api (Some owner) (?pre @ owner # post) st = Inr st3"
    using assms(1) sp(1) by simp
  then have "(case remove_loop api (Some owner) ?pre st of Inl e \<Rightarrow> Inl e
              | Inr m \<Rightarrow> remove_loop api (Some owner) (owner # post) m) = Inr st3"
    by (simp only: remove_loop_append)
  then obtain mid where pre: "remove_loop api (Some owner) ?pre st = Inr mid"
    and r1: "remove_loop api (Some owner) (owner # post) mid = Inr st3"
    by (cases "remove_loop api (Some owner) ?pre st") simp_all
  from r1 obtain st1 where step: "remove_step api (Some owner) owner mid = Inr st1"
    and post: "remove_loop api (Some owner) post st1 = Inr st3"
    by (cases "remove_step api (Some owner) owner mid") simp_all
  have npre: "\<forall>r \<in> set ?pre. Some r \<noteq> Some owner" using sp(2) by blast
  have npost: "\<forall>r \<in> set post. Some r \<noteq> Some owner" using sp(3) by blast
  have pre': "remove_loop api None ?pre st = Inr mid"
    using pre remove_loop_others [OF npre, of api st] by simp
  have post': "remove_loop api None post st1 = Inr st3"
    using post remove_loop_others [OF npost, of api st1] by simp
  from pre pre' step post' sp show thesis by (rule that)
qed

lemma owner_step_registered:
  assumes "remove_step api (Some owner) owner mid = Inr st1" "\<not> registered (surfaces mid x)"
  shows "\<not> registered (surfaces st1 x)"
proof -
  from owner_step [OF assms(1)] obtain expanded where
    e: "regions_minus (invalid_regions (surfaces mid owner)) (invalid_regions (surfaces mid expanded)) = []
             \<Longrightarrow> \<exists>dup. DuplicateSurface api owner expanded mid = Inr dup \<and> UnregisterSurface owner dup = Inr st1"
       "regions_minus (invalid_regions (surfaces mid owner)) (invalid_regions (surfaces mid expanded)) \<noteq> []
             \<Longrightarrow> st1 = mid" by blast
  show ?thesis
  proof (cases "regions_minus (invalid_regions (surfaces mid owner)) (invalid_regions (surfaces mid expanded)) = []")
    case True
    with e(1) obtain dup where d: "DuplicateSurface api owner expanded mid = Inr dup"
      "UnregisterSurface owner dup = Inr st1" by blast
    from DuplicateSurface_effect [OF d(1)] assms(2) have nd: "\<not> registered (surfaces dup x)" by simp
    from UnregisterSurface_effect [OF d(2)] have
      u: "\<forall>y. y \<noteq> owner \<longrightarrow> surfaces st1 y = surfaces dup y"
         "surfaces st1 owner = (surfaces dup owner)\<lparr>registered := False\<rparr>" by simp_all
    show ?thesis
    proof (cases "x = owner")
      case True
      then show ?thesis using u(2) by simp
    next
      case False
      then show ?thesis using u(1) nd by simp
    qed
  next
    case False
    with e(2) assms(2) show ?thesis by simp
  qed
qed

lemma unregister_loop_facts:
  assumes "remove_loop api None rs st = Inr st'"
  shows "events st' = events st"
    and "\<And>r. r \<in> set rs \<Longrightarrow> \<not> registered (surfaces st' r)"
    and "\<And>x. \<not> registered (surfaces st x) \<Longrightarrow> \<not> registered (surfaces st' x)"
    and "\<And>x. x \<notin> set rs \<Longrightarrow> surfaces st' x = surfaces st x"
proof -
  note u = unregister_loop [OF assms] and s = unregister_loop_surfaces [OF assms]
  show "events st' = events st" using u by blast
  show "\<And>r. r \<in> set rs \<Longrightarrow> \<not> registered (surfaces st' r)" using u by blast
  show "\<And>x. \<not> registered (surfaces st x) \<Longrightarrow> \<not> registered (surfaces st' x)" using u by blast
  show "\<And>x. x \<notin> set rs \<Longrightarrow> surfaces st' x = surfaces st x" using s by blast
qed

text \<open>
  Claim C3, as stated, fails on the match that locates the successor, and on the condition in
  its literal reading. In the concrete cache, surface 1 owns the invalidation of
  \<open>[0x2000, 0x3000)\<close> and is staged. An \<open>Expand|Invalid\<close> match against its params finds
  surface 3, which overlaps it at the highest scale; the duplication, as the blit in the trace
  shows, goes into surface 2, the surface that contains it. After the marking the owner has no
  invalid byte and surface 2 is invalid on the whole of \<open>[0x2000, 0x3000)\<close>: the successor has
  more invalid bytes than the owner, and the duplication happens.
\<close>

theorem C3_successor_match_counterexample:
  "FindMatch spec_api {Expand, Invalid}
       (surfaces (projr (invalidate_mark 0x2000 0x1000 (Some 1) ex_cache)))
       (surface_cache (projr (invalidate_mark 0x2000 0x1000 (Some 1) ex_cache)))
       (SurfaceParams.truncate (surfaces (projr (invalidate_mark 0x2000 0x1000 (Some 1) ex_cache)) 1))
       Ignore None = Inr (Some 3)
   \<and> invalid_regions (surfaces (projr (invalidate_mark 0x2000 0x1000 (Some 1) ex_cache)) 1) = []
   \<and> invalid_regions (surfaces (projr (invalidate_mark 0x2000 0x1000 (Some 1) ex_cache)) 2)
       = [(0x2000, 0x3000)]
   \<and> \<not> isl (InvalidateRegion spec_api 0x2000 0x1000 (Some 1) ex_cache)
   \<and> events (projr (InvalidateRegion spec_api 0x2000 0x1000 (Some 1) ex_cache))
       = [InvalidateAllWatcher 2, InvalidateAllWatcher 3, InvalidateAllWatcher 2,
          InvalidateAllWatcher 2, Blit 1 2]"
  by code_simp

text \<open>
  Claim C3, amended. Whenever \<open>InvalidateRegion\<close> returns: every staged surface other than the
  region owner ends unregistered. If the owner is not staged nothing is duplicated. If the
  owner is staged, then once the surfaces staged before it are unregistered its successor is
  the \<open>SubRect|Invalid\<close> match of the cache against the owner's params, at any scale; the
  owner is duplicated into it (the blit, where the formats can be blitted) and unregistered
  exactly when every invalid byte of the owner is also invalid in the successor, that is
  when the owner's invalid regions minus the successor's are empty; otherwise nothing is
  duplicated and the owner is skipped: it is not unregistered and stays as the marking left
  it.
\<close>

theorem C3_staged_owner_duplicated_into_SubRect_match:
  assumes "InvalidateRegion api a sz region_owner st = Inr st'" and "sz \<noteq> 0"
    and "distinct (remove_surfaces st)"
  shows "\<exists>marked.
           invalidate_mark a sz region_owner st = Inr marked
         \<and> (\<forall>r \<in> set (remove_surfaces marked). Some r \<noteq> region_owner \<longrightarrow> \<not> registered (surfaces st' r))
         \<and> ((\<forall>r \<in> set (remove_surfaces marked). Some r \<noteq> region_owner) \<longrightarrow> events st' = events marked)
         \<and> (\<forall>owner. region_owner = Some owner \<and> owner \<in> set (remove_surfaces marked) \<longrightarrow>
               (\<exists>mid expanded.
                   remove_loop api region_owner
                      (takeWhile (\<lambda>r. r \<noteq> owner) (remove_surfaces marked)) marked = Inr mid
                 \<and> FindMatch api {SubRect, Invalid} (surfaces mid) (surface_cache mid)
                      (SurfaceParams.truncate (surfaces mid owner)) Ignore None = Inr (Some expanded)
                 \<and> (if regions_minus (invalid_regions (surfaces mid owner))
                          (invalid_regions (surfaces mid expanded)) = []
                    then events st' = events marked @
                           (if CheckFormatsBlittable api (pixel_format (surfaces mid owner))
                                 (pixel_format (surfaces mid expanded))
                            then [InvalidateAllWatcher expanded, Blit owner expanded] else [])
                         \<and> \<not> registered (surfaces st' owner)
                    else events st' = events marked
                         \<and> surfaces st' owner = surfaces marked owner)))"
proof -
  have "\<exists>marked st3. invalidate_mark a sz region_owner st = Inr marked
      \<and> remove_loop api region_owner (remove_surfaces marked) marked = Inr st3
      \<and> st' = st3\<lparr>remove_surfaces := []\<rparr>"
  proof (cases "invalidate_mark a sz region_owner st")
    case (Inl e)
    then show ?thesis using assms(1,2) by (simp add: InvalidateRegion_def)
  next
    case (Inr marked)
    then show ?thesis using assms(1,2)
      by (cases "remove_loop api region_owner (remove_surfaces marked) marked")
         (simp_all add: InvalidateRegion_def)
  qed
  then obtain marked st3 where
    m: "invalidate_mark a sz region_owner st = Inr marked"
    and rl: "remove_loop api region_owner (remove_surfaces marked) marked = Inr st3"
    and st': "st' = st3\<lparr>remove_surfaces := []\<rparr>"
    by blast
  let ?rs = "remove_surfaces marked"
  have dist: "distinct ?rs" by (rule invalidate_mark_staged [OF m assms(3)])
  have ev': "events st' = events st3" and su': "surfaces st' = surfaces st3"
    using st' by simp_all
  \<comment> \<open>no staged surface is the owner\<close>
  have c2: "events st' = events marked" if "\<forall>r \<in> set ?rs. Some r \<noteq> region_owner"
  proof -
    from rl remove_loop_others [OF that, of api marked]
    have "remove_loop api None ?rs marked = Inr st3" by simp
    from unregister_loop_facts(1) [OF this] ev' show ?thesis by simp
  qed
  \<comment> \<open>the other staged surfaces\<close>
  have c1: "\<not> registered (surfaces st' r)" if r: "r \<in> set ?rs" "Some r \<noteq> region_owner" for r
  proof (cases "\<forall>x \<in> set ?rs. Some x \<noteq> region_owner")
    case True
    from rl remove_loop_others [OF True, of api marked]
    have "remove_loop api None ?rs marked = Inr st3" by simp
    from unregister_loop_facts(2) [OF this r(1)] su' show ?thesis by simp
  next
    case False
    then obtain owner where o: "region_owner = Some owner" "owner \<in> set ?rs" by blast
    from remove_loop_owner_split [OF rl [unfolded o(1)] o(2) dist] obtain mid st1 post where
      pre': "remove_loop api None (takeWhile (\<lambda>r. r \<noteq> owner) ?rs) marked = Inr mid"
      and step: "remove_step api (Some owner) owner mid = Inr st1"
      and post': "remove_loop api None post st1 = Inr st3"
      and sp: "?rs = takeWhile (\<lambda>r. r \<noteq> owner) ?rs @ owner # post"
      by blast
    let ?pre = "takeWhile (\<lambda>r. r \<noteq> owner) ?rs"
    have "r \<in> set (?pre @ owner # post)" using r(1) sp by simp
    moreover have "r \<noteq> owner" using r(2) o(1) by simp
    ultimately have "r \<in> set ?pre \<or> r \<in> set post" by simp
    then have "\<not> registered (surfaces st3 r)"
    proof
      assume "r \<in> set ?pre"
      from unregister_loop_facts(2) [OF pre' this] have "\<not> registered (surfaces mid r)" .
      from owner_step_registered [OF step this] have "\<not> registered (surfaces st1 r)" .
      from unregister_loop_facts(3) [OF post' this] show ?thesis .
    next
      assume "r \<in> set post"
      from unregister_loop_facts(2) [OF post' this] show ?thesis .
    qed
    then show ?thesis using su' by simp
  qed
  \<comment> \<open>the owner, when staged\<close>
  have c3: "\<exists>mid expanded.
                   remove_loop api region_owner (takeWhile (\<lambda>r. r \<noteq> owner) ?rs) marked = Inr mid
                 \<and> FindMatch api {SubRect, Invalid} (surfaces mid) (surface_cache mid)
                      (SurfaceParams.truncate (surfaces mid owner)) Ignore None = Inr (Some expanded)
                 \<and> (if regions_minus (invalid_regions (surfaces mid owner))
                          (invalid_regions (surfaces mid expanded)) = []
                    then events st' = events marked @
                           (if CheckFormatsBlittable api (pixel_format (surfaces mid owner))
                                 (pixel_format (surfaces mid expanded))
                            then [InvalidateAllWatcher expanded, Blit owner expanded] else [])
                         \<and> \<not> registered (surfaces st' owner)
                    else events st' = events marked
                         \<and> surfaces st' owner = surfaces marked owner)"
    if o: "region_owner = Some owner" "owner \<in> set ?rs" for owner
  proof -
    from remove_loop_owner_split [OF rl [unfolded o(1)] o(2) dist] obtain mid st1 post where
      pre: "remove_loop api (Some owner) (takeWhile (\<lambda>r. r \<noteq> owner) ?rs) marked = Inr mid"
      and pre': "remove_loop api None (takeWhile (\<lambda>r. r \<noteq> owner) ?rs) marked = Inr mid"
      and step: "remove_step api (Some owner) owner mid = Inr st1"
      and post': "remove_loop api None post st1 = Inr st3"
      and notin: "owner \<notin> set (takeWhile (\<lambda>r. r \<noteq> owner) ?rs)" "owner \<notin> set post"
      by blast
    have emid: "events mid = events marked" by (rule unregister_loop_facts(1) [OF pre'])
    have e3: "events st3 = events st1" by (rule unregister_loop_facts(1) [OF post'])
    have smid: "surfaces mid owner = surfaces marked owner"
      by (rule unregister_loop_facts(4) [OF pre' notin(1)])
    have s3: "surfaces st3 owner = surfaces st1 owner"
      by (rule unregister_loop_facts(4) [OF post' notin(2)])
    from owner_step [OF step] obtain expanded where
      fm: "FindMatch api {SubRect, Invalid} (surfaces mid) (surface_cache mid)
              (SurfaceParams.truncate (surfaces mid owner)) Ignore None = Inr (Some expanded)"
      and e: "regions_minus (invalid_regions (surfaces mid owner)) (invalid_regions (surfaces mid expanded)) = []
             \<Longrightarrow> \<exists>dup. DuplicateSurface api owner expanded mid = Inr dup \<and> UnregisterSurface owner dup = Inr st1"
           "regions_minus (invalid_regions (surfaces mid owner)) (invalid_regions (surfaces mid expanded)) \<noteq> []
             \<Longrightarrow> st1 = mid" by blast
    let ?c = "regions_minus (invalid_regions (surfaces mid owner)) (invalid_regions (surfaces mid expanded)) = []"
    let ?blit = "if CheckFormatsBlittable api (pixel_format (surfaces mid owner))
                                 (pixel_format (surfaces mid expanded))
                            then [InvalidateAllWatcher expanded, Blit owner expanded] else []"
    have yes: "events st' = events marked @ ?blit \<and> \<not> registered (surfaces st' owner)" if ?c
    proof -
      from e(1) [OF that] obtain dup where d: "DuplicateSurface api owner expanded mid = Inr dup"
        "UnregisterSurface owner dup = Inr st1" by blast
      from DuplicateSurface_effect [OF d(1)] have de: "events dup = events mid @ ?blit" by blast
      from UnregisterSurface_effect [OF d(2)] have ue: "events st1 = events dup"
        "surfaces st1 owner = (surfaces dup owner)\<lparr>registered := False\<rparr>" by blast+
      have "events st' = events marked @ ?blit" using ev' e3 ue(1) de emid by simp
      moreover have "\<not> registered (surfaces st' owner)" using su' s3 ue(2) by simp
      ultimately show ?thesis by blast
    qed
    have no: "events st' = events marked \<and> surfaces st' owner = surfaces marked owner" if "\<not> ?c"
    proof -
      from e(2) [OF that] have "st1 = mid" .
      then show ?thesis using ev' e3 emid su' s3 smid by simp
    qed
    have branch: "if ?c then events st' = events marked @ ?blit \<and> \<not> registered (surfaces st' owner)
                  else events st' = events marked \<and> surfaces st' owner = surfaces marked owner"
    proof (cases ?c)
      case True
      from yes [OF True] show ?thesis by (simp only: True if_True simp_thms)
    next
      case False
      from no [OF False] show ?thesis by (simp only: False if_False simp_thms)
    qed
    from pre [folded o(1)] fm branch show ?thesis by blast
  qed
  from m c1 c2 c3 show ?thesis by blast
qed

theorem C3_staged_owner_duplicated_into_SubRect_match_witness:
  "\<exists>st'. InvalidateRegion spec_api 0x2000 0x1000 (Some 1) ex_cache = Inr st'
      \<and> remove_surfaces (projr (invalidate_mark 0x2000 0x1000 (Some 1) ex_cache)) = [1]
      \<and> (\<exists>mid expanded.
             remove_loop spec_api (Some 1) [] (projr (invalidate_mark 0x2000 0x1000 (Some 1) ex_cache)) = Inr mid
           \<and> FindMatch spec_api {SubRect, Invalid} (surfaces mid) (surface_cache mid)
                (SurfaceParams.truncate (surfaces mid 1)) Ignore None = Inr (Some expanded)
           \<and> expanded = 2 \<and> \<not> registered (surfaces st' 1))"
proof -
  have ok: "\<not> isl (InvalidateRegion spec_api 0x2000 0x1000 (Some 1) ex_cache)"
    "\<not> isl (invalidate_mark 0x2000 0x1000 (Some 1) ex_cache)"
    "remove_surfaces (projr (invalidate_mark 0x2000 0x1000 (Some 1) ex_cache)) = [1]"
    by code_simp+
  then obtain st' marked where s: "InvalidateRegion spec_api 0x2000 0x1000 (Some 1) ex_cache = Inr st'"
    "invalidate_mark 0x2000 0x1000 (Some 1) ex_cache = Inr marked"
    by (metis sum.collapse(2))
  have h: "(0x1000::u32) \<noteq> 0" "distinct (remove_surfaces ex_cache)" by (simp_all add: ex_cache_def)
  have rs: "remove_surfaces marked = [1]" using ok(3) s(2) by simp
  from C3_staged_owner_duplicated_into_SubRect_match [OF s(1) h] s(2) rs
  obtain mid expanded where
    me: "remove_loop spec_api (Some 1) [] marked = Inr mid"
    "FindMatch spec_api {SubRect, Invalid} (surfaces mid) (surface_cache mid)
         (SurfaceParams.truncate (surfaces mid 1)) Ignore None = Inr (Some expanded)"
    "if regions_minus (invalid_regions (surfaces mid 1)) (invalid_regions (surfaces mid expanded)) = []
     then events st' = events marked @
            (if CheckFormatsBlittable spec_api (pixel_format (surfaces mid 1)) (pixel_format (surfaces mid expanded))
             then [InvalidateAllWatcher expanded, Blit 1 expanded] else [])
          \<and> \<not> registered (surfaces st' 1)
     else events st' = events marked \<and> surfaces st' 1 = surfaces marked 1"
    by force
  have mid: "mid = marked" using me(1) by simp
  have fm: "FindMatch spec_api {SubRect, Invalid} (surfaces (projr (invalidate_mark 0x2000 0x1000 (Some 1) ex_cache)))
       (surface_cache (projr (invalidate_mark 0x2000 0x1000 (Some 1) ex_cache)))
       (SurfaceParams.truncate (surfaces (projr (invalidate_mark 0x2000 0x1000 (Some 1) ex_cache)) 1))
       Ignore None = Inr (Some 2)"
    by code_simp
  have two: "expanded = 2" using fm me(2) mid s(2) by simp
  have cond: "regions_minus (invalid_regions (surfaces (projr (invalidate_mark 0x2000 0x1000 (Some 1) ex_cache)) 1))
      (invalid_regions (surfaces (projr (invalidate_mark 0x2000 0x1000 (Some 1) ex_cache)) 2)) = []"
    by code_simp
  have "\<not> registered (surfaces st' 1)" using me(3) cond two mid s(2) by simp
  with s me two rs show ?thesis by auto
qed

end
